theory Spec2Isabelle
  imports Main
begin

section \<open>gen\_known\_imports: the data model\<close>

text \<open>
  The program \<^verbatim>\<open>internal/language/proto/gen/gen_known_imports.go\<close> reads a CSV table,
  builds an ordered list of (import, label) bindings and renders them through a template
  into a Go source file. Strings are byte strings (\<open>string\<close>), Go's \<open>int\<close> flags are
  \<open>int\<close> (no arithmetic is done on them), the \<open>seen\<close> map is a partial function.
\<close>

definition NL :: char where "NL = CHR 0x0A"

definition CR :: char where "CR = CHR 0x0D"

definition TAB :: char where "TAB = CHR 0x09"

definition DQ :: char where "DQ = CHR 0x22"

definition COMMA :: char where "COMMA = CHR '',''"

definition HASH :: char where "HASH = CHR ''#''"

text \<open>
  Modelled from the spec: type \<^verbatim>\<open>label.Label\<close> is declared in package
  \<^verbatim>\<open>internal/label\<close>, which is not part of this file. The spec (section 3) gives it a
  repository identifier, a package path and a target name; the template of this file reads
  exactly the fields \<^verbatim>\<open>Repo\<close>, \<^verbatim>\<open>Pkg\<close> and \<^verbatim>\<open>Name\<close>.
\<close>

record label =
  Repo :: string
  Pkg :: string
  Name :: string

text \<open>
  Modelled from the spec: method \<^verbatim>\<open>Label.Equal\<close> of package \<^verbatim>\<open>internal/label\<close>.
  The spec (section 3): equality is structural (repo, pkg, name all equal).
\<close>

definition Equal :: "label \<Rightarrow> label \<Rightarrow> bool" where
  "Equal l other \<longleftrightarrow> Repo l = Repo other \<and> Pkg l = Pkg other \<and> Name l = Name other"

text \<open>\<^verbatim>\<open>type binding struct { Import string; Label label.Label }\<close>\<close>

record binding =
  Import :: string
  Label :: label

text \<open>\<^verbatim>\<open>type data struct { ProtoCsv, Package, Var string; Bindings []binding }\<close>\<close>

record data =
  ProtoCsv :: string
  Package :: string
  Var :: string
  Bindings :: "binding list"

text \<open>
  Error values. \<open>EOF\<close> is \<^verbatim>\<open>io.EOF\<close>; \<open>Errorf m\<close> is \<^verbatim>\<open>fmt.Errorf\<close> with the
  formatted message \<open>m\<close>; \<open>ParseError k\<close> is a \<^verbatim>\<open>*csv.ParseError\<close> of kind \<open>k\<close>
  (its line and column numbers are left out); \<open>OSError m\<close> is an error of the operating
  system (package \<^verbatim>\<open>os\<close>), \<open>ExecError m\<close> one of \<^verbatim>\<open>text/template\<close>.
\<close>

datatype csv_err = ErrBareQuote | ErrQuote | ErrFieldCount

datatype error =
    EOF
  | Errorf string
  | ParseError csv_err
  | OSError string
  | ExecError string

text \<open>
  A run of Go code ends by returning or by a run-time panic. The only panic this program
  can raise itself is the index-out-of-range panic of \<^verbatim>\<open>rec[keyColumn]\<close> and
  \<^verbatim>\<open>rec[valueColumn]\<close>.
\<close>

datatype failure = Err error | PanicIndexOutOfRange

text \<open>Go slice indexing \<^verbatim>\<open>xs[i]\<close> with an \<open>int\<close> index: out of range is a panic.\<close>

definition index :: "'a list \<Rightarrow> int \<Rightarrow> failure + 'a" where
  "index xs i = (if 0 \<le> i \<and> i < int (length xs) then Inr (xs ! nat i) else Inl PanicIndexOutOfRange)"

section \<open>The binding loop of \<open>run\<close> (lines 113 to 128)\<close>

text \<open>
  \<open>Parse\<close> is \<^verbatim>\<open>label.Parse\<close> and \<open>String\<close> is the method \<^verbatim>\<open>Label.String\<close> that
  \<^verbatim>\<open>%s\<close> calls; both belong to package \<^verbatim>\<open>internal/label\<close> and are parameters here.
  The loop state is the map \<open>seen\<close> and the slice \<^verbatim>\<open>data.Bindings\<close>.
\<close>

type_synonym loop_state = "(string \<rightharpoonup> label) \<times> binding list"

definition conflict_message :: "(label \<Rightarrow> string) \<Rightarrow> string \<Rightarrow> label \<Rightarrow> label \<Rightarrow> string" where
  "conflict_message String imp seenLabel lbl =
     ''for key '' @ imp @ '', multiple values ('' @ String seenLabel @ '' and '' @ String lbl @ '')''"

definition loop_body ::
  "(string \<Rightarrow> error + label) \<Rightarrow> (label \<Rightarrow> string) \<Rightarrow> int \<Rightarrow> int \<Rightarrow>
   loop_state \<Rightarrow> string list \<Rightarrow> failure + loop_state" where
  "loop_body Parse String keyColumn valueColumn st rec =
     (case index rec keyColumn of
        Inl p \<Rightarrow> Inl p
      | Inr imp \<Rightarrow>
         (case index rec valueColumn of
            Inl p \<Rightarrow> Inl p
          | Inr v \<Rightarrow>
             (case Parse v of
                Inl err \<Rightarrow> Inl (Err err)
              | Inr lbl \<Rightarrow>
                 (case fst st imp of
                    Some seenLabel \<Rightarrow>
                      if \<not> Equal seenLabel lbl
                      then Inl (Err (Errorf (conflict_message String imp seenLabel lbl)))
                      else Inr st
                  | None \<Rightarrow>
                      Inr ((fst st)(imp \<mapsto> lbl), snd st @ [\<lparr>Import = imp, Label = lbl\<rparr>])))))"

fun loop ::
  "(string \<Rightarrow> error + label) \<Rightarrow> (label \<Rightarrow> string) \<Rightarrow> int \<Rightarrow> int \<Rightarrow>
   loop_state \<Rightarrow> string list list \<Rightarrow> failure + loop_state" where
  "loop Parse String keyColumn valueColumn st [] = Inr st"
| "loop Parse String keyColumn valueColumn st (rec # records) =
     (case loop_body Parse String keyColumn valueColumn st rec of
        Inl f \<Rightarrow> Inl f
      | Inr st' \<Rightarrow> loop Parse String keyColumn valueColumn st' records)"

section \<open>The table reader: \<^verbatim>\<open>encoding/csv\<close> as \<open>run\<close> configures it (lines 100 to 103)\<close>

text \<open>
  \<^verbatim>\<open>csv.NewReader(bufio.NewReader(protoCsvFile))\<close> with \<^verbatim>\<open>r.Comment = '#'\<close> and
  \<^verbatim>\<open>r.FieldsPerRecord = 4\<close>. The reader is Go's standard library (the version with
  \<^verbatim>\<open>readLine\<close>, Go 1.10 and later); the definitions follow its functions \<^verbatim>\<open>readLine\<close>,
  \<^verbatim>\<open>lengthNL\<close>, \<^verbatim>\<open>readRecord\<close> and \<^verbatim>\<open>ReadAll\<close> with the options the program leaves
  at their defaults written in: \<^verbatim>\<open>Comma = ','\<close>, \<^verbatim>\<open>LazyQuotes = false\<close>,
  \<^verbatim>\<open>TrimLeadingSpace = false\<close>. The comment character is fixed to \<^verbatim>\<open>'#'\<close>;
  \<^verbatim>\<open>FieldsPerRecord\<close> stays a field of the reader.

  A \<open>source\<close> is what is left to read of the opened file: the bytes still unread, and the
  error the file returns once they are used up (\<open>EOF\<close> for a file that ends normally,
  another error for a read that fails).
\<close>

type_synonym source = "string \<times> error"

text \<open>\<^verbatim>\<open>bufio.Reader.ReadSlice('\n')\<close>, with the buffer-full case that \<^verbatim>\<open>readLine\<close> joins
  back together: the bytes up to and including the next newline, or all remaining bytes
  and the error of the source.\<close>

definition ReadSlice :: "source \<Rightarrow> (string \<times> error option) \<times> source" where
  "ReadSlice s =
     (case dropWhile (\<lambda>c. c \<noteq> NL) (fst s) of
        [] \<Rightarrow> ((fst s, Some (snd s)), ([], snd s))
      | c # rest \<Rightarrow> ((takeWhile (\<lambda>c. c \<noteq> NL) (fst s) @ [NL], None), (rest, snd s)))"

text \<open>\<^verbatim>\<open>readLine\<close>: a line that ends at the end of the input, without a newline, is no
  error and loses a final carriage return; then a final \<^verbatim>\<open>\r\n\<close> becomes \<^verbatim>\<open>\n\<close>
  (\<open>normalizeCRLF\<close>).\<close>

definition normalizeCRLF :: "string \<Rightarrow> string" where
  "normalizeCRLF line =
     (let n = length line
      in if n \<ge> 2 \<and> line ! (n - 2) = CR \<and> line ! (n - 1) = NL
         then take (n - 2) line @ [NL] else line)"

definition readLine :: "source \<Rightarrow> (string \<times> error option) \<times> source" where
  "readLine s =
     (case ReadSlice s of
        ((line, err), s') \<Rightarrow>
          let atEOF = (line \<noteq> [] \<and> err = Some EOF);
              err1 = (if atEOF then None else err);
              line1 = (if atEOF \<and> last line = CR then butlast line else line)
          in ((normalizeCRLF line1, err1), s'))"

definition lengthNL :: "string \<Rightarrow> nat" where
  "lengthNL b = (if b \<noteq> [] \<and> last b = NL then 1 else 0)"

lemma length_ReadSlice:
  "ReadSlice s = ((line, err), s') \<Longrightarrow> length (fst s') + length line = length (fst s)"
proof -
  assume a: "ReadSlice s = ((line, err), s')"
  have split: "length (takeWhile (\<lambda>c. c \<noteq> NL) (fst s)) + length (dropWhile (\<lambda>c. c \<noteq> NL) (fst s))
               = length (fst s)"
    by (metis length_append takeWhile_dropWhile_id)
  show ?thesis
  proof (cases "dropWhile (\<lambda>c. c \<noteq> NL) (fst s)")
    case Nil
    with a show ?thesis by (auto simp: ReadSlice_def)
  next
    case (Cons c rest)
    with a split show ?thesis by (auto simp: ReadSlice_def)
  qed
qed

lemma length_normalizeCRLF: "length (normalizeCRLF line) \<le> length line"
  by (auto simp: normalizeCRLF_def Let_def)

lemma length_readLine:
  "readLine s = ((line, err), s') \<Longrightarrow> length (fst s') + length line \<le> length (fst s)"
proof -
  assume a: "readLine s = ((line, err), s')"
  obtain l0 e0 s0 where rs: "ReadSlice s = ((l0, e0), s0)"
    by (metis prod.exhaust)
  from length_ReadSlice [OF rs] have "length (fst s0) + length l0 = length (fst s)" .
  moreover from a rs have "s' = s0" by (simp add: readLine_def Let_def)
  moreover have "length line \<le> length l0"
  proof -
    from a rs have "line = normalizeCRLF l0 \<or> line = normalizeCRLF (butlast l0)"
      by (auto simp: readLine_def Let_def split: if_splits)
    then show ?thesis
      using length_normalizeCRLF [of l0] length_normalizeCRLF [of "butlast l0"] by auto
  qed
  ultimately show ?thesis by simp
qed

lemma readLine_progress:
  "readLine s = ((line, None), s') \<Longrightarrow> length (fst s') < length (fst s)"
proof -
  assume a: "readLine s = ((line, None), s')"
  obtain l0 e0 s0 where rs: "ReadSlice s = ((l0, e0), s0)"
    by (metis prod.exhaust)
  from a rs have "s' = s0" and "l0 \<noteq> []"
    by (auto simp: readLine_def Let_def ReadSlice_def split: if_splits list.splits)
  with length_ReadSlice [OF rs] show ?thesis by (cases l0) auto
qed

lemma tl_dropWhile_shorter:
  "c \<in> set xs \<Longrightarrow> length (tl (dropWhile (\<lambda>x. x \<noteq> c) xs)) < length xs"
proof -
  assume "c \<in> set xs"
  then have "dropWhile (\<lambda>x. x \<noteq> c) xs \<noteq> []" by simp
  moreover have "length (dropWhile (\<lambda>x. x \<noteq> c) xs) \<le> length xs"
    by (rule length_dropWhile_le)
  ultimately show ?thesis by (cases "dropWhile (\<lambda>x. x \<noteq> c) xs") auto
qed

text \<open>The first loop of \<^verbatim>\<open>readRecord\<close>: read a line, skipping comment lines (the first
  rune of the line is the comment character) and empty lines, until a line to parse or an
  error.\<close>

function skipLines :: "source \<Rightarrow> (string \<times> error option) \<times> source" where
  "skipLines s =
     (case readLine s of
        ((line, errRead), s') \<Rightarrow>
          if line \<noteq> [] \<and> hd line = HASH
          then (if errRead = None then skipLines s' else (([], errRead), s'))
          else if errRead = None \<and> length line = lengthNL line then skipLines s'
          else ((line, errRead), s'))"
  by pat_completeness auto
termination
  by (relation "measure (\<lambda>s. length (fst s))") (auto dest!: readLine_progress [OF sym])

declare skipLines.simps [simp del]

text \<open>The \<^verbatim>\<open>parseField\<close> loop of \<^verbatim>\<open>readRecord\<close>. \<open>parseField\<close> is the head of the loop
  (a field starts at \<open>line\<close>), \<open>quotedField\<close> its inner loop over a quoted field, whose
  bytes so far are \<open>cur\<close>. The result is the fields, the parse error \<^verbatim>\<open>err\<close>, the read
  error \<^verbatim>\<open>errRead\<close> and the source.\<close>

function parseField ::
    "string \<Rightarrow> error option \<Rightarrow> source \<Rightarrow> string list \<Rightarrow>
     string list \<times> error option \<times> error option \<times> source"
  and quotedField ::
    "string \<Rightarrow> error option \<Rightarrow> source \<Rightarrow> string list \<Rightarrow> string \<Rightarrow>
     string list \<times> error option \<times> error option \<times> source" where
  "parseField line errRead s dst =
     (if line = [] \<or> hd line \<noteq> DQ then
        (let field = (if COMMA \<in> set line then takeWhile (\<lambda>c. c \<noteq> COMMA) line
                      else take (length line - lengthNL line) line)
         in if DQ \<in> set field then (dst, Some (ParseError ErrBareQuote), errRead, s)
            else if COMMA \<in> set line
            then parseField (tl (dropWhile (\<lambda>c. c \<noteq> COMMA) line)) errRead s (dst @ [field])
            else (dst @ [field], None, errRead, s))
      else quotedField (tl line) errRead s dst [])"
| "quotedField line errRead s dst cur =
     (if DQ \<in> set line then
        (let cur' = cur @ takeWhile (\<lambda>c. c \<noteq> DQ) line;
             line' = tl (dropWhile (\<lambda>c. c \<noteq> DQ) line)
         in if line' \<noteq> [] \<and> hd line' = DQ then quotedField (tl line') errRead s dst (cur' @ [DQ])
            else if line' \<noteq> [] \<and> hd line' = COMMA then parseField (tl line') errRead s (dst @ [cur'])
            else if lengthNL line' = length line' then (dst @ [cur'], None, errRead, s)
            else (dst, Some (ParseError ErrQuote), errRead, s))
      else if line \<noteq> [] then
        (if errRead \<noteq> None then (dst, None, errRead, s)
         else (case readLine s of
                 ((line', errRead'), s') \<Rightarrow>
                   quotedField line' (if errRead' = Some EOF then None else errRead') s' dst (cur @ line)))
      else if errRead = None then (dst, Some (ParseError ErrQuote), errRead, s)
      else (dst @ [cur], None, errRead, s))"
  by pat_completeness auto
termination
proof (relation "measure (\<lambda>x. case x of
          Inl (line, errRead, s, dst) \<Rightarrow> length line + length (fst s)
        | Inr (line, errRead, s, dst, cur) \<Rightarrow> length line + length (fst s))", goal_cases)
  case 1
  show ?case by simp
next
  case (2 line errRead s dst x)
  then show ?case using tl_dropWhile_shorter [of COMMA line] by simp
next
  case (3 line errRead s dst)
  then show ?case by (cases line) auto
next
  case (4 line errRead s dst cur x xa)
  then show ?case
    using tl_dropWhile_shorter [of DQ line] by (cases "tl (dropWhile (\<lambda>c. c \<noteq> DQ) line)") auto
next
  case (5 line errRead s dst cur x xa)
  then show ?case
    using tl_dropWhile_shorter [of DQ line] by (cases "tl (dropWhile (\<lambda>c. c \<noteq> DQ) line)") auto
next
  case (6 line errRead s dst cur x y xa ya)
  then have "readLine s = ((xa, ya), y)" by simp
  from length_readLine [OF this] 6 show ?case by (cases line) auto
qed

declare parseField.simps [simp del] quotedField.simps [simp del]

lemma skipLines_length:
  "skipLines s = ((line, errRead), s') \<Longrightarrow>
     length (fst s') \<le> length (fst s) \<and> (errRead = None \<longrightarrow> length (fst s') < length (fst s))"
proof (induction s rule: skipLines.induct)
  case (1 s)
  obtain l e s1 where rl: "readLine s = ((l, e), s1)" by (metis prod.exhaust)
  from length_readLine [OF rl] have le: "length (fst s1) \<le> length (fst s)" by simp
  have lt: "e = None \<Longrightarrow> length (fst s1) < length (fst s)"
    using readLine_progress rl by blast
  show ?case
  proof (cases "l \<noteq> [] \<and> hd l = HASH")
    case True
    show ?thesis
    proof (cases "e = None")
      case True
      with \<open>l \<noteq> [] \<and> hd l = HASH\<close> rl "1.prems" have "skipLines s1 = ((line, errRead), s')"
        by (subst (asm) skipLines.simps) simp
      from "1.IH"(1) [OF rl [symmetric] refl \<open>l \<noteq> [] \<and> hd l = HASH\<close> True this] lt [OF True]
      show ?thesis by auto
    next
      case False
      with \<open>l \<noteq> [] \<and> hd l = HASH\<close> rl "1.prems" le show ?thesis
        by (subst (asm) skipLines.simps) auto
    qed
  next
    case False
    show ?thesis
    proof (cases "e = None \<and> length l = lengthNL l")
      case True
      with False rl "1.prems" have "skipLines s1 = ((line, errRead), s')"
        by (subst (asm) skipLines.simps) auto
      from "1.IH"(2) [OF rl [symmetric] refl False True this] lt True
      show ?thesis by auto
    next
      case F2: False
      with False rl "1.prems" have "line = l" "errRead = e" "s' = s1"
        by (subst (asm) skipLines.simps, auto)+
      with le lt show ?thesis by auto
    qed
  qed
qed

lemma parse_length:
  "length (fst (snd (snd (snd (parseField line errRead s dst))))) \<le> length (fst s) \<and>
     (errRead \<noteq> None \<longrightarrow> fst (snd (snd (parseField line errRead s dst))) = errRead)"
  "length (fst (snd (snd (snd (quotedField line errRead s dst cur))))) \<le> length (fst s) \<and>
     (errRead \<noteq> None \<longrightarrow> fst (snd (snd (quotedField line errRead s dst cur))) = errRead)"
proof (induction line errRead s dst and line errRead s dst cur rule: parseField_quotedField.induct)
  case (1 line errRead s dst)
  then show ?case
    by (simp only: parseField.simps [of line errRead s dst]) (auto simp: Let_def)
next
  case (2 line errRead s dst cur)
  show ?case
  proof (cases "DQ \<in> set line")
    case True
    with 2 show ?thesis
      by (simp only: quotedField.simps [of line errRead s dst cur]) (auto simp: Let_def)
  next
    case False
    show ?thesis
    proof (cases "line \<noteq> [] \<and> errRead = None")
      case True
      obtain l e s1 where rl: "readLine s = ((l, e), s1)" by (metis prod.exhaust)
      from length_readLine [OF rl] have le: "length (fst s1) \<le> length (fst s)" by simp
      from True False have lne: "line \<noteq> []" and en: "\<not> errRead \<noteq> None" by auto
      from "2.IH"(3) [OF False lne en rl [symmetric] refl] le
      have "length (fst (snd (snd (snd (quotedField l (if e = Some EOF then None else e) s1 dst (cur @ line))))))
            \<le> length (fst s)"
        by simp
      with True False rl show ?thesis
        by (simp add: quotedField.simps [of line None s dst cur] Let_def)
    next
      case F2: False
      with False show ?thesis
        by (simp only: quotedField.simps [of line errRead s dst cur]) (auto simp: Let_def)
    qed
  qed
qed

text \<open>The reader: the field \<^verbatim>\<open>FieldsPerRecord\<close> and what is left of the input.\<close>

record reader =
  FieldsPerRecord :: int
  rd :: source

text \<open>\<^verbatim>\<open>readRecord\<close>: skip to a line, return \<open>EOF\<close> at the end of the input, otherwise
  parse the fields; a read error stands when there is no parse error; then check or set
  the number of fields. The validity test of \<^verbatim>\<open>Comma\<close> and \<^verbatim>\<open>Comment\<close> at its head
  holds for \<^verbatim>\<open>','\<close> and \<^verbatim>\<open>'#'\<close>.\<close>

definition readRecord :: "reader \<Rightarrow> (string list \<times> error option) \<times> reader" where
  "readRecord r =
     (case skipLines (rd r) of
        ((line, errRead), s) \<Rightarrow>
          if errRead = Some EOF then (([], Some EOF), r\<lparr>rd := s\<rparr>)
          else (case parseField line errRead s [] of
                  (dst, err, errRead', s') \<Rightarrow>
                    let err1 = (if err = None then errRead' else err)
                    in if FieldsPerRecord r > 0
                       then ((dst, if int (length dst) \<noteq> FieldsPerRecord r \<and> err1 = None
                                   then Some (ParseError ErrFieldCount) else err1),
                             r\<lparr>rd := s'\<rparr>)
                       else if FieldsPerRecord r = 0
                       then ((dst, err1), r\<lparr>FieldsPerRecord := int (length dst), rd := s'\<rparr>)
                       else ((dst, err1), r\<lparr>rd := s'\<rparr>)))"

lemma readRecord_eof:
  "skipLines (rd r) = ((line, Some EOF), s) \<Longrightarrow> readRecord r = (([], Some EOF), r\<lparr>rd := s\<rparr>)"
  by (simp add: readRecord_def)

lemma readRecord_parsed:
  assumes "skipLines (rd r) = ((line, errRead), s)" and "errRead \<noteq> Some EOF"
    and "parseField line errRead s [] = (dst, err, er', s')"
  shows "rd (snd (readRecord r)) = s'"
    and "fst (fst (readRecord r)) = dst"
    and "snd (fst (readRecord r)) =
          (let err1 = (if err = None then er' else err)
           in if FieldsPerRecord r > 0 \<and> int (length dst) \<noteq> FieldsPerRecord r \<and> err1 = None
              then Some (ParseError ErrFieldCount) else err1)"
    and "FieldsPerRecord (snd (readRecord r)) =
          (if FieldsPerRecord r = 0 then int (length dst) else FieldsPerRecord r)"
  using assms by (simp_all add: readRecord_def Let_def)

lemma readRecord_progress:
  assumes "readRecord r = ((record, None), r')"
  shows "length (fst (rd r')) < length (fst (rd r))"
proof -
  obtain line errRead s where sk: "skipLines (rd r) = ((line, errRead), s)"
    by (metis prod.exhaust)
  obtain dst err er' s' where pf: "parseField line errRead s [] = (dst, err, er', s')"
    by (metis prod.exhaust)
  have neof: "errRead \<noteq> Some EOF"
  proof
    assume "errRead = Some EOF"
    with sk readRecord_eof [of r line s] assms show False by simp
  qed
  from readRecord_parsed(1) [OF sk neof pf] assms have rd: "rd r' = s'" by simp
  from readRecord_parsed(3) [OF sk neof pf] assms have e1: "err = None \<and> er' = None"
    by (simp add: Let_def split: if_splits)
  from parse_length(1) [of line errRead s "[]"] pf
  have le: "length (fst s') \<le> length (fst s)" and keep: "errRead \<noteq> None \<longrightarrow> er' = errRead"
    by auto
  from keep e1 have "errRead = None" by auto
  with skipLines_length [OF sk] le rd show ?thesis by simp
qed

text \<open>\<^verbatim>\<open>ReadAll\<close>: records until \<open>EOF\<close>; any other error discards them.\<close>

function ReadAll_loop :: "reader \<Rightarrow> string list list \<Rightarrow> error + string list list" where
  "ReadAll_loop r records =
     (case readRecord r of
        ((record, err), r') \<Rightarrow>
          (case err of
             None \<Rightarrow> ReadAll_loop r' (records @ [record])
           | Some e \<Rightarrow> if e = EOF then Inr records else Inl e))"
  by pat_completeness auto
termination
  by (relation "measure (\<lambda>(r, records). length (fst (rd r)))")
     (auto dest!: readRecord_progress [OF sym])

declare ReadAll_loop.simps [simp del]

definition ReadAll :: "reader \<Rightarrow> error + string list list" where
  "ReadAll r = ReadAll_loop r []"

section \<open>The template \<open>knownImportsTpl\<close> (lines 39 to 52)\<close>

text \<open>
  The text the template writes for a \<open>data\<close> value. \<open>q\<close> is the verb \<^verbatim>\<open>%q\<close> of
  \<^verbatim>\<open>printf\<close> on a string (\<^verbatim>\<open>strconv.Quote\<close>), a parameter. Inside
  \<^verbatim>\<open>{{range .Bindings}}\<close> each binding writes a newline, a tab, the \<^verbatim>\<open>printf\<close> text and
  a comma; \<^verbatim>\<open>{{- end}}\<close> trims the newline before it.
\<close>

definition binding_text :: "(string \<Rightarrow> string) \<Rightarrow> binding \<Rightarrow> string" where
  "binding_text q b =
     [NL, TAB] @ q (Import b) @ '': label.New('' @ q (Repo (Label b)) @ '', '' @ q (Pkg (Label b))
       @ '', '' @ q (Name (Label b)) @ '')'' @ '',''"

definition knownImportsTpl :: "(string \<Rightarrow> string) \<Rightarrow> data \<Rightarrow> error + string" where
  "knownImportsTpl q d =
     Inr ([NL] @ ''// Generated by internal/language/proto/gen/gen_known_imports.go'' @ [NL]
          @ ''// From '' @ ProtoCsv d @ [NL, NL]
          @ ''package '' @ Package d @ [NL, NL]
          @ ''import '' @ [DQ] @ ''github.com/bazelbuild/bazel-gazelle/internal/label'' @ [DQ] @ [NL, NL]
          @ ''var '' @ Var d @ '' = map[string]label.Label{'' @ [NL]
          @ concat (map (binding_text q) (Bindings d))
          @ [NL] @ ''}'' @ [NL])"

section \<open>The files and \<open>run\<close> (lines 72 to 134)\<close>

text \<open>
  The operating system answers the two calls the program makes on files: \<open>openResult\<close> is
  what \<^verbatim>\<open>os.Open\<close> returns for a path (an error, or the file as a \<open>source\<close> to read),
  \<open>writeResult\<close> what \<^verbatim>\<open>ioutil.WriteFile\<close> returns for a path and the bytes to write.
  Each call on a file is recorded as an event, in the order the program makes them.
\<close>

record env =
  openResult :: "string \<Rightarrow> error + source"
  writeResult :: "string \<Rightarrow> string \<Rightarrow> error option"

datatype event =
    EvOpen string
  | EvReadAll string
  | EvClose string
  | EvWriteFile string string nat

text \<open>An open file: its path and what is left to read.\<close>

type_synonym os_file = "string \<times> source"

definition os_Open :: "env \<Rightarrow> string \<Rightarrow> event list \<Rightarrow> (error + os_file) \<times> event list" where
  "os_Open e name tr =
     (case openResult e name of
        Inl err \<Rightarrow> (Inl err, tr @ [EvOpen name])
      | Inr s \<Rightarrow> (Inr (name, s), tr @ [EvOpen name]))"

text \<open>\<^verbatim>\<open>csv.NewReader(bufio.NewReader(f))\<close>, \<^verbatim>\<open>r.Comment = '#'\<close>,
  \<^verbatim>\<open>r.FieldsPerRecord = 4\<close>, \<^verbatim>\<open>r.ReadAll()\<close>.\<close>

definition csv_ReadAll :: "os_file \<Rightarrow> event list \<Rightarrow> (error + string list list) \<times> event list" where
  "csv_ReadAll f tr = (ReadAll \<lparr>FieldsPerRecord = 4, rd = snd f\<rparr>, tr @ [EvReadAll (fst f)])"

text \<open>\<^verbatim>\<open>protoCsvFile.Close()\<close>; the program ignores its result.\<close>

definition file_Close :: "os_file \<Rightarrow> event list \<Rightarrow> event list" where
  "file_Close f tr = tr @ [EvClose (fst f)]"

definition ioutil_WriteFile ::
  "env \<Rightarrow> string \<Rightarrow> string \<Rightarrow> nat \<Rightarrow> event list \<Rightarrow> error option \<times> event list" where
  "ioutil_WriteFile e name bytes perm tr = (writeResult e name bytes, tr @ [EvWriteFile name bytes perm])"

text \<open>
  The values of the six flags after \<^verbatim>\<open>fs.Parse(args)\<close> (package \<^verbatim>\<open>flag\<close>); \<open>run\<close> is
  modelled from there on. The defaults are the empty string, and 0 and 1 for the columns.
\<close>

record flags =
  protoCsvPath :: string
  knownImportsPath :: string
  package_flag :: string
  var_flag :: string
  keyColumn :: int
  valueColumn :: int

text \<open>
  \<open>run\<close> returns \<open>None\<close> for \<^verbatim>\<open>nil\<close>, \<open>Some (Err e)\<close> for the error \<open>e\<close>, and
  \<open>Some PanicIndexOutOfRange\<close> when it panics; with it the events of the run.
  \<open>Execute\<close> is \<^verbatim>\<open>knownImportsTpl.Execute\<close> into the buffer, by package
  \<^verbatim>\<open>text/template\<close>: the rendered bytes or an error. The mode \<^verbatim>\<open>0666\<close> is 438.
\<close>

definition run ::
  "(string \<Rightarrow> error + label) \<Rightarrow> (label \<Rightarrow> string) \<Rightarrow> (data \<Rightarrow> error + string) \<Rightarrow>
   env \<Rightarrow> flags \<Rightarrow> failure option \<times> event list" where
  "run Parse String Execute e fl =
     (if protoCsvPath fl = [] then (Some (Err (Errorf ''-proto_csv not set'')), [])
      else if knownImportsPath fl = [] then (Some (Err (Errorf ''-known_imports not set'')), [])
      else if package_flag fl = [] then (Some (Err (Errorf ''-package not set'')), [])
      else if var_flag fl = [] then (Some (Err (Errorf ''-var not set'')), [])
      else
        (case os_Open e (protoCsvPath fl) [] of
           (Inl err, tr1) \<Rightarrow> (Some (Err err), tr1)
         | (Inr protoCsvFile, tr1) \<Rightarrow>
            (case csv_ReadAll protoCsvFile tr1 of
               (res, tr2) \<Rightarrow>
                 let tr3 = file_Close protoCsvFile tr2 in
                 (case res of
                    Inl err \<Rightarrow> (Some (Err err), tr3)
                  | Inr records \<Rightarrow>
                     (case loop Parse String (keyColumn fl) (valueColumn fl) (Map.empty, []) records of
                        Inl f \<Rightarrow> (Some f, tr3)
                      | Inr (seen, bindings) \<Rightarrow>
                         (case Execute \<lparr>ProtoCsv = protoCsvPath fl, Package = package_flag fl,
                                         Var = var_flag fl, Bindings = bindings\<rparr> of
                            Inl err \<Rightarrow> (Some (Err err), tr3)
                          | Inr knownImportsBuf \<Rightarrow>
                             (case ioutil_WriteFile e (knownImportsPath fl) knownImportsBuf 438 tr3 of
                                (werr, tr4) \<Rightarrow> (map_option Err werr, tr4))))))))"

section \<open>The words of the claims\<close>

text \<open>Definitions that the statements below use: they say what the spec's words mean on the
  model, and are not part of the program.\<close>

text \<open>Shorthands for the statements: all four required flags are set; the three events
  of the input file; the value handed to the template.\<close>

definition flags_set :: "flags \<Rightarrow> bool" where
  "flags_set fl \<longleftrightarrow>
     protoCsvPath fl \<noteq> [] \<and> knownImportsPath fl \<noteq> [] \<and> package_flag fl \<noteq> [] \<and> var_flag fl \<noteq> []"

definition input_events :: "flags \<Rightarrow> event list" where
  "input_events fl = [EvOpen (protoCsvPath fl), EvReadAll (protoCsvPath fl), EvClose (protoCsvPath fl)]"

definition data_of :: "flags \<Rightarrow> binding list \<Rightarrow> data" where
  "data_of fl bindings =
     \<lparr>ProtoCsv = protoCsvPath fl, Package = package_flag fl, Var = var_flag fl, Bindings = bindings\<rparr>"

text \<open>
  The words of the spec, as definitions of their own. \<open>row_pair\<close> is the
  (key-column, parsed value-column) pair of a row, or the failure of reading the two
  columns or of parsing the value. \<open>first_occurrences\<close> keeps, of a list of pairs, each
  pair whose key has not occurred earlier in the list. \<open>binding_of\<close> is the binding of a
  pair.
\<close>

definition row_pair ::
  "(string \<Rightarrow> error + label) \<Rightarrow> int \<Rightarrow> int \<Rightarrow> string list \<Rightarrow> failure + (string \<times> label)" where
  "row_pair Parse k v rec =
     (case index rec k of
        Inl p \<Rightarrow> Inl p
      | Inr imp \<Rightarrow>
         (case index rec v of
            Inl p \<Rightarrow> Inl p
          | Inr s \<Rightarrow> (case Parse s of Inl err \<Rightarrow> Inl (Err err) | Inr lbl \<Rightarrow> Inr (imp, lbl))))"

fun first_occurrences :: "(string \<times> label) list \<Rightarrow> (string \<times> label) list" where
  "first_occurrences [] = []"
| "first_occurrences (p # ps) = p # first_occurrences (filter (\<lambda>q. fst q \<noteq> fst p) ps)"

definition binding_of :: "string \<times> label \<Rightarrow> binding" where
  "binding_of p = \<lparr>Import = fst p, Label = snd p\<rparr>"

text \<open>The state of the loop after the pairs \<open>ps\<close>: the label first given to each key, and
  the bindings of the first occurrences.\<close>

definition state_after :: "(string \<times> label) list \<Rightarrow> loop_state" where
  "state_after ps = (map_of ps, map binding_of (first_occurrences ps))"

text \<open>The pairs agree when no key has two different labels; then every pair carries the
  label first given to its key.\<close>

definition agree :: "(string \<times> label) list \<Rightarrow> bool" where
  "agree ps \<longleftrightarrow> (\<forall>p \<in> set ps. \<forall>q \<in> set ps. fst p = fst q \<longrightarrow> Equal (snd p) (snd q))"

text \<open>An event is a write of a file.\<close>

fun is_write :: "event \<Rightarrow> bool" where
  "is_write (EvWriteFile name bytes perm) = True"
| "is_write ev = False"

text \<open>The files a run writes, with the bytes written to each.\<close>

fun written :: "event list \<Rightarrow> (string \<times> string) list" where
  "written [] = []"
| "written (EvWriteFile name bytes perm # evs) = (name, bytes) # written evs"
| "written (ev # evs) = written evs"

text \<open>The rows of an input: the records the reader returns one after the other, up to the
  end of the input or the first error.\<close>

function read_rows :: "reader \<Rightarrow> string list list \<Rightarrow> string list list" where
  "read_rows r acc =
     (case readRecord r of
        ((recd, err), r') \<Rightarrow>
          (case err of
             None \<Rightarrow> read_rows r' (acc @ [recd])
           | Some e \<Rightarrow> acc))"
  by pat_completeness auto
termination
  by (relation "measure (\<lambda>(r, acc). length (fst (rd r)))")
     (auto dest!: readRecord_progress [OF sym])

declare read_rows.simps [simp del]

text \<open>
  A line is given without its newline. A comment line starts with \<^verbatim>\<open>#\<close>; a blank line
  is empty or a lone carriage return. \<open>join_lines\<close> is the text of a list of lines, each
  ended by a newline. \<open>line_read\<close> is the line as \<^verbatim>\<open>readLine\<close> returns it (a final
  \<^verbatim>\<open>\r\n\<close> becomes \<^verbatim>\<open>\n\<close>).
\<close>

definition comment_line :: "string \<Rightarrow> bool" where
  "comment_line l \<longleftrightarrow> l \<noteq> [] \<and> hd l = HASH"

definition blank_line :: "string \<Rightarrow> bool" where
  "blank_line l \<longleftrightarrow> l = [] \<or> l = [CR]"

definition join_lines :: "string list \<Rightarrow> string" where
  "join_lines ls = concat (map (\<lambda>l. l @ [NL]) ls)"

definition line_read :: "string \<Rightarrow> string" where
  "line_read l = (if l \<noteq> [] \<and> last l = CR then butlast l @ [NL] else l @ [NL])"

text \<open>
  The fields of one record, parsed from its first line \<open>line\<close> (as read) and the lines
  \<open>after\<close> it in the input (without their newlines). \<open>fields_on_lines\<close> and \<open>quoted_on_lines\<close>
  follow \<open>parseField\<close> and \<open>quotedField\<close> step by step; a quoted field that does not end
  on its line goes on in the next line of \<open>after\<close>. The result is the fields, the parse
  error, and the lines that the record did not use; it is \<open>None\<close> when the lines run out
  inside a quoted field.
\<close>

function fields_on_lines ::
    "string \<Rightarrow> string list \<Rightarrow> string list \<Rightarrow>
     ((string list \<times> error option) \<times> string list) option"
  and quoted_on_lines ::
    "string \<Rightarrow> string list \<Rightarrow> string list \<Rightarrow> string \<Rightarrow>
     ((string list \<times> error option) \<times> string list) option" where
  "fields_on_lines line after dst =
     (if line = [] \<or> hd line \<noteq> DQ then
        (let field = (if COMMA \<in> set line then takeWhile (\<lambda>c. c \<noteq> COMMA) line
                      else take (length line - lengthNL line) line)
         in if DQ \<in> set field then Some ((dst, Some (ParseError ErrBareQuote)), after)
            else if COMMA \<in> set line
            then fields_on_lines (tl (dropWhile (\<lambda>c. c \<noteq> COMMA) line)) after (dst @ [field])
            else Some ((dst @ [field], None), after))
      else quoted_on_lines (tl line) after dst [])"
| "quoted_on_lines line after dst cur =
     (if DQ \<in> set line then
        (let cur' = cur @ takeWhile (\<lambda>c. c \<noteq> DQ) line;
             line' = tl (dropWhile (\<lambda>c. c \<noteq> DQ) line)
         in if line' \<noteq> [] \<and> hd line' = DQ then quoted_on_lines (tl line') after dst (cur' @ [DQ])
            else if line' \<noteq> [] \<and> hd line' = COMMA then fields_on_lines (tl line') after (dst @ [cur'])
            else if lengthNL line' = length line' then Some ((dst @ [cur'], None), after)
            else Some ((dst, Some (ParseError ErrQuote)), after))
      else if line \<noteq> [] then
        (case after of
           [] \<Rightarrow> None
         | l # after' \<Rightarrow> quoted_on_lines (line_read l) after' dst (cur @ line))
      else None)"
  by pat_completeness auto
termination
proof (relation "measure (\<lambda>x. case x of
          Inl (line, after, dst) \<Rightarrow> length line + length (join_lines after)
        | Inr (line, after, dst, cur) \<Rightarrow> length line + length (join_lines after))", goal_cases)
  case 1
  show ?case by simp
next
  case (2 line after dst x)
  then show ?case using tl_dropWhile_shorter [of COMMA line] by simp
next
  case (3 line after dst)
  then show ?case by (cases line) auto
next
  case (4 line after dst cur x xa)
  then show ?case
    using tl_dropWhile_shorter [of DQ line] by (cases "tl (dropWhile (\<lambda>c. c \<noteq> DQ) line)") auto
next
  case (5 line after dst cur x xa)
  then show ?case
    using tl_dropWhile_shorter [of DQ line] by (cases "tl (dropWhile (\<lambda>c. c \<noteq> DQ) line)") auto
next
  case (6 line after dst cur l after')
  have "length (line_read l) \<le> Suc (length l)"
    by (simp add: line_read_def)
  with 6 show ?case by (cases line) (auto simp: join_lines_def)
qed

declare fields_on_lines.simps [simp del] quoted_on_lines.simps [simp del]

text \<open>The lines that a record did not use are the last of the lines it was given, and
  the record is the same whatever follows the lines it used.\<close>

lemma on_lines_prefix:
  "fields_on_lines line after dst = Some (res, left) \<Longrightarrow>
     \<exists>pre. after = pre @ left \<and> (\<forall>x. fields_on_lines line (pre @ x) dst = Some (res, x))"
  "quoted_on_lines line after dst cur = Some (res, left) \<Longrightarrow>
     \<exists>pre. after = pre @ left \<and> (\<forall>x. quoted_on_lines line (pre @ x) dst cur = Some (res, x))"
proof (induction line after dst and line after dst cur rule: fields_on_lines_quoted_on_lines.induct)
  case (1 line after dst)
  let ?field = "if COMMA \<in> set line then takeWhile (\<lambda>c. c \<noteq> COMMA) line
                else take (length line - lengthNL line) line"
  show ?case
  proof (cases "line = [] \<or> hd line \<noteq> DQ")
    case plain: True
    show ?thesis
    proof (cases "DQ \<in> set ?field")
      case True
      with plain have E: "fields_on_lines line a dst = Some ((dst, Some (ParseError ErrBareQuote)), a)"
        for a by (subst fields_on_lines.simps) (auto simp add: Let_def)
      from "1.prems" E [of after] have "res = (dst, Some (ParseError ErrBareQuote))" "left = after"
        by simp_all
      with E have "after = [] @ left \<and> (\<forall>x. fields_on_lines line ([] @ x) dst = Some (res, x))"
        by simp
      then show ?thesis by blast
    next
      case nq: False
      show ?thesis
      proof (cases "COMMA \<in> set line")
        case True
        with plain nq have E: "fields_on_lines line a dst =
            fields_on_lines (tl (dropWhile (\<lambda>c. c \<noteq> COMMA) line)) a (dst @ [?field])"
          for a by (subst fields_on_lines.simps) (auto simp add: Let_def)
        from "1.prems" have "fields_on_lines (tl (dropWhile (\<lambda>c. c \<noteq> COMMA) line)) after
            (dst @ [?field]) = Some (res, left)"
          unfolding E [of after] .
        from "1.IH"(1) [OF plain refl nq True this] show ?thesis
          unfolding E .
      next
        case False
        with plain nq have E: "fields_on_lines line a dst = Some ((dst @ [?field], None), a)"
          for a by (subst fields_on_lines.simps) (auto simp add: Let_def)
        from "1.prems" E [of after] have "res = (dst @ [?field], None)" "left = after"
          by simp_all
        with E have "after = [] @ left \<and> (\<forall>x. fields_on_lines line ([] @ x) dst = Some (res, x))"
          by simp
        then show ?thesis by blast
      qed
    qed
  next
    case quoted: False
    then have E: "fields_on_lines line a dst = quoted_on_lines (tl line) a dst []" for a
      by (subst fields_on_lines.simps) (auto simp add: Let_def)
    from "1.prems" have "quoted_on_lines (tl line) after dst [] = Some (res, left)"
      unfolding E [of after] .
    from "1.IH"(2) [OF quoted this] show ?thesis
      unfolding E .
  qed
next
  case (2 line after dst cur)
  let ?cur = "cur @ takeWhile (\<lambda>c. c \<noteq> DQ) line"
  let ?line = "tl (dropWhile (\<lambda>c. c \<noteq> DQ) line)"
  show ?case
  proof (cases "DQ \<in> set line")
    case dq: True
    show ?thesis
    proof (cases "?line \<noteq> [] \<and> hd ?line = DQ")
      case True
      with dq have E: "quoted_on_lines line a dst cur =
          quoted_on_lines (tl ?line) a dst (?cur @ [DQ])"
        for a by (subst quoted_on_lines.simps) (auto simp add: Let_def)
      from "2.prems" have "quoted_on_lines (tl ?line) after dst (?cur @ [DQ]) = Some (res, left)"
        unfolding E [of after] .
      from "2.IH"(1) [OF dq refl refl True this] show ?thesis
        unfolding E .
    next
      case nodq: False
      show ?thesis
      proof (cases "?line \<noteq> [] \<and> hd ?line = COMMA")
        case True
        with dq nodq have E: "quoted_on_lines line a dst cur =
            fields_on_lines (tl ?line) a (dst @ [?cur])"
          for a by (subst quoted_on_lines.simps) (auto simp add: Let_def)
        from "2.prems" have "fields_on_lines (tl ?line) after (dst @ [?cur]) = Some (res, left)"
          unfolding E [of after] .
        from "2.IH"(2) [OF dq refl refl nodq True this] show ?thesis
          unfolding E .
      next
        case nocomma: False
        with dq nodq have E: "quoted_on_lines line a dst cur =
            Some ((if lengthNL ?line = length ?line then (dst @ [?cur], None)
                   else (dst, Some (ParseError ErrQuote))), a)"
          for a by (subst quoted_on_lines.simps) (auto simp add: Let_def)
        from "2.prems" E [of after]
        have "res = (if lengthNL ?line = length ?line then (dst @ [?cur], None)
                   else (dst, Some (ParseError ErrQuote)))" "left = after"
          by simp_all
        with E have "after = [] @ left \<and>
            (\<forall>x. quoted_on_lines line ([] @ x) dst cur = Some (res, x))"
          by simp
        then show ?thesis by blast
      qed
    qed
  next
    case nq: False
    then have E: "quoted_on_lines line a dst cur =
        (if line \<noteq> [] then
           (case a of [] \<Rightarrow> None
            | l # a' \<Rightarrow> quoted_on_lines (line_read l) a' dst (cur @ line))
         else None)"
      for a by (subst quoted_on_lines.simps) simp
    from "2.prems" E [of after] obtain l after' where ne: "line \<noteq> []" and after: "after = l # after'"
      and nxt: "quoted_on_lines (line_read l) after' dst (cur @ line) = Some (res, left)"
      by (auto split: if_splits list.splits)
    from "2.IH"(3) [OF nq ne after nxt] obtain pre where pre: "after' = pre @ left"
      and all: "\<And>x. quoted_on_lines (line_read l) (pre @ x) dst (cur @ line) = Some (res, x)"
      by blast
    from ne all have "quoted_on_lines line ((l # pre) @ x) dst cur = Some (res, x)" for x
      by (simp add: E)
    with after pre have "after = (l # pre) @ left \<and>
        (\<forall>x. quoted_on_lines line ((l # pre) @ x) dst cur = Some (res, x))"
      by simp
    then show ?thesis by blast
  qed
qed

lemma on_lines_left:
  "fields_on_lines line after dst = Some (res, left) \<Longrightarrow> length left \<le> length after"
  by (auto dest: on_lines_prefix(1))

text \<open>
  The input as lines: the lines that end with a newline (without it), and what follows
  the last newline.
\<close>

fun split_lines :: "string \<Rightarrow> string list \<times> string" where
  "split_lines [] = ([], [])"
| "split_lines (c # b) =
     (case split_lines b of
        (ls, r) \<Rightarrow>
          if c = NL then ([] # ls, r)
          else (case ls of
                  [] \<Rightarrow> ([], c # r)
                | l # ls' \<Rightarrow> ((c # l) # ls', r)))"

text \<open>
  The input without its comment lines. The lines \<open>ls\<close> (each ended by a newline) and the
  last line \<open>r\<close> (not ended by one) are gone through from the start of a record. A line
  that starts with \<^verbatim>\<open>#\<close> is left out; a blank line is kept; any other line starts a record,
  which is kept with all the lines it uses: those are the lines on which a quoted field of
  the record goes on, and a \<^verbatim>\<open>#\<close> at the start of one of them is inside that field. When
  the lines run out inside a quoted field, everything that is left is kept.
\<close>

function without_comment_lines :: "string list \<Rightarrow> string \<Rightarrow> string" where
  "without_comment_lines [] r = (if comment_line r then [] else r)"
| "without_comment_lines (l # ls) r =
     (if comment_line l then without_comment_lines ls r
      else if blank_line l then l @ NL # without_comment_lines ls r
      else (case fields_on_lines (line_read l) ls [] of
              None \<Rightarrow> join_lines (l # ls) @ r
            | Some (res, left) \<Rightarrow>
                join_lines (l # take (length ls - length left) ls) @ without_comment_lines left r))"
  by pat_completeness auto
termination
  by (relation "measure (\<lambda>(ls, r). length ls)") (auto dest: on_lines_left(1))

declare without_comment_lines.simps [simp del]

definition without_comments :: "string \<Rightarrow> string" where
  "without_comments b = (case split_lines b of (ls, r) \<Rightarrow> without_comment_lines ls r)"

section \<open>Concrete instances\<close>

text \<open>
  Modelled from the spec: \<^verbatim>\<open>label.Parse\<close> and \<^verbatim>\<open>Label.String\<close> of package
  \<^verbatim>\<open>internal/label\<close>, which is not part of this file, for the one string form the spec
  names (section 3), \<^verbatim>\<open>@repo//pkg:name\<close> with a non-empty name; the spec does not
  describe the shorthand forms, and this model rejects them. An invalid string fails with
  an error that identifies the input (section 4.4). The theorems take \<open>Parse\<close> and \<open>String\<close>
  as parameters and hold for every parser; these two definitions only supply the
  concrete inputs.
\<close>

fun split_slashes :: "string \<Rightarrow> string \<Rightarrow> (string \<times> string) option" where
  "split_slashes acc (c # d # cs) =
     (if c = CHR ''/'' \<and> d = CHR ''/'' then Some (acc, cs) else split_slashes (acc @ [c]) (d # cs))"
| "split_slashes acc cs = None"

definition Parse_full :: "string \<Rightarrow> error + label" where
  "Parse_full s =
     (case s of
        [] \<Rightarrow> Inl (Errorf (''label parse error: '' @ s))
      | c # t \<Rightarrow>
         (if c \<noteq> CHR ''@'' then Inl (Errorf (''label parse error: '' @ s))
          else (case split_slashes [] t of
                  None \<Rightarrow> Inl (Errorf (''label parse error: '' @ s))
                | Some (repo, rest) \<Rightarrow>
                   (if CHR '':'' \<notin> set rest \<or> tl (dropWhile (\<lambda>x. x \<noteq> CHR '':'') rest) = []
                    then Inl (Errorf (''label parse error: '' @ s))
                    else Inr \<lparr>Repo = repo, Pkg = takeWhile (\<lambda>x. x \<noteq> CHR '':'') rest,
                              Name = tl (dropWhile (\<lambda>x. x \<noteq> CHR '':'') rest)\<rparr>))))"

definition String_full :: "label \<Rightarrow> string" where
  "String_full l = ''@'' @ Repo l @ ''//'' @ Pkg l @ '':'' @ Name l"

text \<open>
  \<^verbatim>\<open>strconv.Quote\<close> on a string of printable ASCII characters: the string between double
  quotes, with a backslash before each double quote and each backslash. (Other bytes have
  escapes of their own, which this instance does not cover.)
\<close>

definition quote :: "string \<Rightarrow> string" where
  "quote s = [DQ] @ concat (map (\<lambda>c. if c = DQ \<or> c = CHR 0x5C then [CHR 0x5C, c] else [c]) s) @ [DQ]"

text \<open>A file system with one readable file \<^verbatim>\<open>in.csv\<close> of the given contents, where every
  write succeeds; and the flags of a run on it.\<close>

definition one_file :: "string \<Rightarrow> env" where
  "one_file bytes =
     \<lparr>openResult = (\<lambda>name. if name = ''in.csv'' then Inr (bytes, EOF)
                            else Inl (OSError ''no such file or directory'')),
      writeResult = (\<lambda>name bytes. None)\<rparr>"

definition flags_of :: "int \<Rightarrow> int \<Rightarrow> flags" where
  "flags_of k v =
     \<lparr>protoCsvPath = ''in.csv'', knownImportsPath = ''out.go'', package_flag = ''proto'',
      var_flag = ''known'', keyColumn = k, valueColumn = v\<rparr>"

text \<open>A second file system: every path opens to the given bytes, and every write fails.\<close>

definition read_only :: "string \<Rightarrow> env" where
  "read_only bytes =
     \<lparr>openResult = (\<lambda>name. Inr (bytes, EOF)),
      writeResult = (\<lambda>name bytes. Some (OSError ''read-only file system''))\<rparr>"

text \<open>Input files for the concrete runs below.\<close>

definition masked_conflict :: string where
  "masked_conflict =
     ''a,@r//p:x,1,2'' @ [NL] @ ''b,@r//p:,3,4'' @ [NL] @ ''a,@r//p:y,5,6'' @ [NL]"

definition plain_conflict :: string where
  "plain_conflict =
     ''a,@r//p:x,1,2'' @ [NL] @ ''b,@r//p:z,3,4'' @ [NL] @ ''a,@r//p:y,5,6'' @ [NL]"

definition seen_then_unparsed :: string where
  "seen_then_unparsed = ''a,@r//p:x,1,2'' @ [NL] @ ''a,@r//p:,3,4'' @ [NL]"

definition one_row :: string where
  "one_row = ''a,@r//p:x,1,2'' @ [NL]"

definition short_row :: string where
  "short_row = ''a,@r//p:x,1'' @ [NL]"

definition five_fields :: string where
  "five_fields = ''a,@r//p:x,1,2'' @ [NL] @ ''# note'' @ [NL] @ ''b,@r//p:y,3,4,5'' @ [NL]"

definition indented_comment :: string where
  "indented_comment = '' # note'' @ [NL] @ ''a,@r//p:x,1,2'' @ [NL]"

definition with_comments :: string where
  "with_comments =
     ''# top'' @ [NL] @ ''a,@r//p:x,'' @ [DQ] @ ''x'' @ [NL] @ ''#y'' @ [DQ] @ '',d'' @ [NL]
     @ ''#,,,,,,'' @ [NL] @ [DQ] @ ''b'' @ [DQ] @ '',@r//p:y,3,4'' @ [NL] @ ''#''"

section \<open>The stages of \<open>run\<close>\<close>

lemma run_open_fail:
  "flags_set fl \<Longrightarrow> openResult e (protoCsvPath fl) = Inl err \<Longrightarrow>
     run Parse String Execute e fl = (Some (Err err), [EvOpen (protoCsvPath fl)])"
  by (simp add: run_def flags_set_def os_Open_def)

lemma run_read_fail:
  "flags_set fl \<Longrightarrow> openResult e (protoCsvPath fl) = Inr s \<Longrightarrow>
   ReadAll \<lparr>FieldsPerRecord = 4, rd = s\<rparr> = Inl err \<Longrightarrow>
     run Parse String Execute e fl = (Some (Err err), input_events fl)"
  by (simp add: run_def flags_set_def os_Open_def csv_ReadAll_def file_Close_def input_events_def)

lemma run_loop_fail:
  "flags_set fl \<Longrightarrow> openResult e (protoCsvPath fl) = Inr s \<Longrightarrow>
   ReadAll \<lparr>FieldsPerRecord = 4, rd = s\<rparr> = Inr records \<Longrightarrow>
   loop Parse String (keyColumn fl) (valueColumn fl) (Map.empty, []) records = Inl f \<Longrightarrow>
     run Parse String Execute e fl = (Some f, input_events fl)"
  by (simp add: run_def flags_set_def os_Open_def csv_ReadAll_def file_Close_def input_events_def)

lemma run_exec_fail:
  "flags_set fl \<Longrightarrow> openResult e (protoCsvPath fl) = Inr s \<Longrightarrow>
   ReadAll \<lparr>FieldsPerRecord = 4, rd = s\<rparr> = Inr records \<Longrightarrow>
   loop Parse String (keyColumn fl) (valueColumn fl) (Map.empty, []) records = Inr (seen, bindings) \<Longrightarrow>
   Execute (data_of fl bindings) = Inl err \<Longrightarrow>
     run Parse String Execute e fl = (Some (Err err), input_events fl)"
  by (simp add: run_def flags_set_def os_Open_def csv_ReadAll_def file_Close_def input_events_def
      data_of_def)

lemma run_write:
  "flags_set fl \<Longrightarrow> openResult e (protoCsvPath fl) = Inr s \<Longrightarrow>
   ReadAll \<lparr>FieldsPerRecord = 4, rd = s\<rparr> = Inr records \<Longrightarrow>
   loop Parse String (keyColumn fl) (valueColumn fl) (Map.empty, []) records = Inr (seen, bindings) \<Longrightarrow>
   Execute (data_of fl bindings) = Inr buf \<Longrightarrow>
     run Parse String Execute e fl =
       (map_option Err (writeResult e (knownImportsPath fl) buf),
        input_events fl @ [EvWriteFile (knownImportsPath fl) buf 438])"
  by (simp add: run_def flags_set_def os_Open_def csv_ReadAll_def file_Close_def input_events_def
      data_of_def ioutil_WriteFile_def)

section \<open>Configuration errors\<close>

text \<open>
  Claim C7. If any of the required flags \<^verbatim>\<open>-proto_csv\<close>, \<^verbatim>\<open>-known_imports\<close>,
  \<^verbatim>\<open>-package\<close>, \<^verbatim>\<open>-var\<close> is empty, \<open>run\<close> returns the error that names the first
  empty flag (in that order), and its list of file events is empty: no file was opened,
  read, closed or written, whatever the file system, the label parser and the template do.
\<close>

theorem missing_flag_fails_before_io:
  "protoCsvPath fl = [] \<or> knownImportsPath fl = [] \<or> package_flag fl = [] \<or> var_flag fl = [] \<Longrightarrow>
     run Parse String Execute e fl =
       (Some (Err (Errorf
          (if protoCsvPath fl = [] then ''-proto_csv not set''
           else if knownImportsPath fl = [] then ''-known_imports not set''
           else if package_flag fl = [] then ''-package not set''
           else ''-var not set''))), [])"
  by (auto simp: run_def)

theorem missing_flag_fails_before_io_witness:
  "\<forall>Parse String Execute e.
     run Parse String Execute e
       \<lparr>protoCsvPath = [], knownImportsPath = ''out.go'', package_flag = ''proto'',
        var_flag = ''knownImports'', keyColumn = 0, valueColumn = 1\<rparr>
       = (Some (Err (Errorf ''-proto_csv not set'')), [])
   \<and> run Parse String Execute e
       \<lparr>protoCsvPath = ''proto.csv'', knownImportsPath = [], package_flag = ''proto'',
        var_flag = ''knownImports'', keyColumn = 0, valueColumn = 1\<rparr>
       = (Some (Err (Errorf ''-known_imports not set'')), [])
   \<and> run Parse String Execute e
       \<lparr>protoCsvPath = ''proto.csv'', knownImportsPath = ''out.go'', package_flag = [],
        var_flag = ''knownImports'', keyColumn = 0, valueColumn = 1\<rparr>
       = (Some (Err (Errorf ''-package not set'')), [])
   \<and> run Parse String Execute e
       \<lparr>protoCsvPath = ''proto.csv'', knownImportsPath = ''out.go'', package_flag = ''proto'',
        var_flag = [], keyColumn = 0, valueColumn = 1\<rparr>
       = (Some (Err (Errorf ''-var not set'')), [])"
proof (intro allI conjI)
  fix Parse String Execute e
  show "run Parse String Execute e
       \<lparr>protoCsvPath = [], knownImportsPath = ''out.go'', package_flag = ''proto'',
        var_flag = ''knownImports'', keyColumn = 0, valueColumn = 1\<rparr>
       = (Some (Err (Errorf ''-proto_csv not set'')), [])"
    using missing_flag_fails_before_io
      [of "\<lparr>protoCsvPath = [], knownImportsPath = ''out.go'', package_flag = ''proto'',
        var_flag = ''knownImports'', keyColumn = 0, valueColumn = 1\<rparr>" Parse String Execute e]
    by simp
  show "run Parse String Execute e
       \<lparr>protoCsvPath = ''proto.csv'', knownImportsPath = [], package_flag = ''proto'',
        var_flag = ''knownImports'', keyColumn = 0, valueColumn = 1\<rparr>
       = (Some (Err (Errorf ''-known_imports not set'')), [])"
    using missing_flag_fails_before_io
      [of "\<lparr>protoCsvPath = ''proto.csv'', knownImportsPath = [], package_flag = ''proto'',
        var_flag = ''knownImports'', keyColumn = 0, valueColumn = 1\<rparr>" Parse String Execute e]
    by simp
  show "run Parse String Execute e
       \<lparr>protoCsvPath = ''proto.csv'', knownImportsPath = ''out.go'', package_flag = [],
        var_flag = ''knownImports'', keyColumn = 0, valueColumn = 1\<rparr>
       = (Some (Err (Errorf ''-package not set'')), [])"
    using missing_flag_fails_before_io
      [of "\<lparr>protoCsvPath = ''proto.csv'', knownImportsPath = ''out.go'', package_flag = [],
        var_flag = ''knownImports'', keyColumn = 0, valueColumn = 1\<rparr>" Parse String Execute e]
    by simp
  show "run Parse String Execute e
       \<lparr>protoCsvPath = ''proto.csv'', knownImportsPath = ''out.go'', package_flag = ''proto'',
        var_flag = [], keyColumn = 0, valueColumn = 1\<rparr>
       = (Some (Err (Errorf ''-var not set'')), [])"
    using missing_flag_fails_before_io
      [of "\<lparr>protoCsvPath = ''proto.csv'', knownImportsPath = ''out.go'', package_flag = ''proto'',
        var_flag = [], keyColumn = 0, valueColumn = 1\<rparr>" Parse String Execute e]
    by simp
qed

section \<open>The binding loop against its specification\<close>

lemma Equal_iff: "Equal a b \<longleftrightarrow> a = b"
  by (cases a, cases b) (simp add: Equal_def)

lemma first_occurrences_snoc:
  "first_occurrences (ps @ [p]) =
     first_occurrences ps @ (if fst p \<in> fst ` set ps then [] else [p])"
proof (induction ps rule: first_occurrences.induct)
  case 1
  show ?case by simp
next
  case (2 a ps)
  show ?case
  proof (cases "fst p = fst a")
    case True
    then show ?thesis by simp
  next
    case False
    have "fst p \<in> fst ` set (filter (\<lambda>q. fst q \<noteq> fst a) ps) \<longleftrightarrow> fst p \<in> fst ` set ps"
      using False by force
    with 2 False show ?thesis by simp
  qed
qed

lemma first_occurrences_distinct:
  "distinct (map fst ps) \<Longrightarrow> first_occurrences ps = ps"
proof (induction ps)
  case Nil
  show ?case by simp
next
  case (Cons p ps)
  from Cons.prems have "fst p \<notin> fst ` set ps" by simp
  then have "\<forall>q \<in> set ps. fst q \<noteq> fst p" by (metis imageI)
  then have "filter (\<lambda>q. fst q \<noteq> fst p) ps = ps"
    by (simp add: filter_id_conv)
  with Cons show ?case by simp
qed

lemma loop_body_row_pair:
  "loop_body Parse String k v st rec =
     (case row_pair Parse k v rec of
        Inl f \<Rightarrow> Inl f
      | Inr p \<Rightarrow>
         (case fst st (fst p) of
            Some seenLabel \<Rightarrow>
              if \<not> Equal seenLabel (snd p)
              then Inl (Err (Errorf (conflict_message String (fst p) seenLabel (snd p))))
              else Inr st
          | None \<Rightarrow> Inr ((fst st)(fst p \<mapsto> snd p), snd st @ [binding_of p])))"
  by (simp add: loop_body_def row_pair_def binding_of_def split: sum.splits option.splits)

lemma loop_append:
  "loop Parse String k v st (xs @ ys) =
     (case loop Parse String k v st xs of
        Inl f \<Rightarrow> Inl f
      | Inr st' \<Rightarrow> loop Parse String k v st' ys)"
  by (induction xs arbitrary: st) (auto split: sum.splits)

text \<open>One row whose pair is \<open>p\<close>, after the pairs \<open>ps\<close>.\<close>

lemma loop_body_after:
  assumes "row_pair Parse k v rec = Inr p"
  shows "loop_body Parse String k v (state_after ps) rec =
     (case map_of ps (fst p) of
        Some seenLabel \<Rightarrow>
          if seenLabel \<noteq> snd p
          then Inl (Err (Errorf (conflict_message String (fst p) seenLabel (snd p))))
          else Inr (state_after (ps @ [p]))
      | None \<Rightarrow> Inr (state_after (ps @ [p])))"
proof (cases "map_of ps (fst p)")
  case None
  then have notin: "fst p \<notin> fst ` set ps"
    by (simp add: map_of_eq_None_iff)
  have "map_of (ps @ [p]) = (map_of ps)(fst p \<mapsto> snd p)"
    using None by (auto simp: fun_eq_iff map_add_def split: option.splits)
  with None notin assms show ?thesis
    by (simp add: loop_body_row_pair state_after_def first_occurrences_snoc)
next
  case (Some l0)
  then have isin: "fst p \<in> fst ` set ps"
    by (metis map_of_eq_None_iff option.distinct(1))
  have "map_of (ps @ [p]) = map_of ps"
    using Some by (auto simp: fun_eq_iff map_add_def split: option.splits)
  with Some isin assms show ?thesis
    by (simp add: loop_body_row_pair state_after_def first_occurrences_snoc Equal_iff)
qed

lemma agree_map_of: "agree ps \<longleftrightarrow> (\<forall>p \<in> set ps. map_of ps (fst p) = Some (snd p))"
proof
  assume a: "agree ps"
  show "\<forall>p \<in> set ps. map_of ps (fst p) = Some (snd p)"
  proof
    fix p assume p: "p \<in> set ps"
    then have "fst p \<in> fst ` set ps" by (rule imageI)
    then obtain y where y: "map_of ps (fst p) = Some y"
      by (metis map_of_eq_None_iff not_None_eq)
    then have q: "(fst p, y) \<in> set ps" by (rule map_of_SomeD)
    from a p q have "Equal (snd p) (snd (fst p, y))"
      unfolding agree_def by (metis fst_conv)
    then have "y = snd p" by (simp add: Equal_iff)
    with y show "map_of ps (fst p) = Some (snd p)" by simp
  qed
next
  assume b: "\<forall>p \<in> set ps. map_of ps (fst p) = Some (snd p)"
  show "agree ps"
    unfolding agree_def Equal_iff
  proof (intro ballI impI)
    fix p q assume p: "p \<in> set ps" and q: "q \<in> set ps" and eq: "fst p = fst q"
    from b p have "map_of ps (fst p) = Some (snd p)" by blast
    moreover from b q have "map_of ps (fst q) = Some (snd q)" by blast
    ultimately show "snd p = snd q" using eq by simp
  qed
qed

lemma agree_snoc:
  "agree (ps @ [p]) \<longleftrightarrow> agree ps \<and> (map_of ps (fst p) = None \<or> map_of ps (fst p) = Some (snd p))"
proof -
  have last: "map_of (ps @ [p]) (fst p) = Some (snd p) \<longleftrightarrow>
        map_of ps (fst p) = None \<or> map_of ps (fst p) = Some (snd p)"
    by (cases "map_of ps (fst p)") (simp_all add: map_add_def)
  have old: "map_of (ps @ [p]) (fst q) = map_of ps (fst q)" if "q \<in> set ps" for q
  proof -
    from that have "fst q \<in> fst ` set ps" by (rule imageI)
    then obtain y where "map_of ps (fst q) = Some y"
      by (metis map_of_eq_None_iff not_None_eq)
    then show ?thesis by (simp add: map_add_def)
  qed
  have "agree (ps @ [p]) \<longleftrightarrow>
        (\<forall>q \<in> set ps. map_of (ps @ [p]) (fst q) = Some (snd q)) \<and>
        map_of (ps @ [p]) (fst p) = Some (snd p)"
    unfolding agree_map_of [of "ps @ [p]"] by (simp add: ball_Un conj_commute del: map_of_append)
  also have "\<dots> \<longleftrightarrow> (\<forall>q \<in> set ps. map_of ps (fst q) = Some (snd q)) \<and>
        map_of (ps @ [p]) (fst p) = Some (snd p)"
    using old by simp
  also have "\<dots> \<longleftrightarrow> agree ps \<and> (map_of ps (fst p) = None \<or> map_of ps (fst p) = Some (snd p))"
    unfolding agree_map_of [of ps] last ..
  finally show ?thesis .
qed

lemma agree_prefix: "agree (ps @ qs) \<Longrightarrow> agree ps"
  by (auto simp: agree_def)

lemma loop_after_ok:
  "map (row_pair Parse k v) records = map Inr pairs \<Longrightarrow> agree (ps @ pairs) \<Longrightarrow>
     loop Parse String k v (state_after ps) records = Inr (state_after (ps @ pairs))"
proof (induction records arbitrary: ps pairs)
  case Nil
  then show ?case by simp
next
  case (Cons rec records)
  then obtain p rest where pairs: "pairs = p # rest" and rp: "row_pair Parse k v rec = Inr p"
    and rest: "map (row_pair Parse k v) records = map Inr rest"
    by (cases pairs) auto
  from Cons.prems(2) pairs have ag: "agree ((ps @ [p]) @ rest)" by simp
  then have "agree (ps @ [p])" by (rule agree_prefix)
  then have "map_of ps (fst p) = None \<or> map_of ps (fst p) = Some (snd p)"
    by (simp add: agree_snoc)
  then have "loop_body Parse String k v (state_after ps) rec = Inr (state_after (ps @ [p]))"
    by (auto simp: loop_body_after [OF rp])
  with Cons.IH [OF rest ag] pairs show ?case by simp
qed

lemma loop_after_result:
  "loop Parse String k v (state_after ps) records = Inr st \<Longrightarrow> agree ps \<Longrightarrow>
     \<exists>pairs. map (row_pair Parse k v) records = map Inr pairs \<and> agree (ps @ pairs) \<and>
             st = state_after (ps @ pairs)"
proof (induction records arbitrary: ps)
  case Nil
  then show ?case by simp
next
  case (Cons rec records)
  from Cons.prems(1) obtain st1 where
    body: "loop_body Parse String k v (state_after ps) rec = Inr st1"
    and rest: "loop Parse String k v st1 records = Inr st"
    by (auto split: sum.splits)
  from body obtain p where rp: "row_pair Parse k v rec = Inr p"
    by (auto simp: loop_body_row_pair split: sum.splits)
  from body have st1: "st1 = state_after (ps @ [p])"
    and ok: "map_of ps (fst p) = None \<or> map_of ps (fst p) = Some (snd p)"
    by (auto simp: loop_body_after [OF rp] split: option.splits if_splits)
  from ok Cons.prems(2) have ag: "agree (ps @ [p])" by (simp add: agree_snoc)
  from Cons.IH [OF rest [unfolded st1] ag] obtain pairs where
    "map (row_pair Parse k v) records = map Inr pairs" "agree ((ps @ [p]) @ pairs)"
    "st = state_after ((ps @ [p]) @ pairs)"
    by blast
  with rp show ?case by (intro exI [of _ "p # pairs"]) simp
qed

lemma loop_after_conflict:
  "map (row_pair Parse k v) records = map Inr pairs \<Longrightarrow> agree ps \<Longrightarrow> \<not> agree (ps @ pairs) \<Longrightarrow>
     \<exists>imp l1 l2. map_of (ps @ pairs) imp = Some l1 \<and> (imp, l2) \<in> set pairs \<and> \<not> Equal l1 l2 \<and>
        loop Parse String k v (state_after ps) (records @ rest) =
          Inl (Err (Errorf (conflict_message String imp l1 l2)))"
proof (induction records arbitrary: ps pairs)
  case Nil
  then show ?case by simp
next
  case (Cons rec records)
  then obtain p more where pairs: "pairs = p # more" and rp: "row_pair Parse k v rec = Inr p"
    and more: "map (row_pair Parse k v) records = map Inr more"
    by (cases pairs) auto
  show ?case
  proof (cases "agree (ps @ [p])")
    case True
    then have "map_of ps (fst p) = None \<or> map_of ps (fst p) = Some (snd p)"
      by (simp add: agree_snoc)
    then have body: "loop_body Parse String k v (state_after ps) rec = Inr (state_after (ps @ [p]))"
      by (auto simp: loop_body_after [OF rp])
    from Cons.prems(3) pairs have "\<not> agree ((ps @ [p]) @ more)" by simp
    from Cons.IH [OF more True this] obtain imp l1 l2 where
      "map_of ((ps @ [p]) @ more) imp = Some l1" "(imp, l2) \<in> set more" "\<not> Equal l1 l2"
      "loop Parse String k v (state_after (ps @ [p])) (records @ rest) =
         Inl (Err (Errorf (conflict_message String imp l1 l2)))"
      by blast
    with body pairs show ?thesis
      by (intro exI [of _ imp] exI [of _ l1] exI [of _ l2]) simp
  next
    case False
    with Cons.prems(2) obtain l0 where l0: "map_of ps (fst p) = Some l0" and ne: "l0 \<noteq> snd p"
      by (auto simp: agree_snoc)
    then have body: "loop_body Parse String k v (state_after ps) rec =
        Inl (Err (Errorf (conflict_message String (fst p) l0 (snd p))))"
      by (simp add: loop_body_after [OF rp])
    from l0 have "map_of (ps @ pairs) (fst p) = Some l0"
      by (simp add: map_add_def)
    with body pairs ne show ?thesis
      by (intro exI [of _ "fst p"] exI [of _ l0] exI [of _ "snd p"]) (simp add: Equal_iff)
  qed
qed

lemma state_after_Nil: "state_after [] = (Map.empty, [])"
  by (simp add: state_after_def)

lemma agree_Nil: "agree []"
  by (simp add: agree_def)

section \<open>The bindings\<close>

text \<open>
  Claim C1. For every row sequence, the binding loop returns the (key-column, parsed
  value-column) pairs in first-occurrence order. In full: the loop returns bindings exactly
  when every row has a pair (its two columns exist and its value parses) and no key has two
  different labels, and the bindings are then the first occurrences of the rows' pairs, in
  input order; when no key occurs twice they are the pairs of all rows, in input order; and
  a row whose key was already seen with an identical label leaves the state of the loop as
  it was (nothing is appended).
\<close>

theorem bindings_are_first_occurrences:
  "((\<exists>seen. loop Parse String k v (Map.empty, []) records = Inr (seen, bindings)) \<longleftrightarrow>
      (\<exists>pairs. map (row_pair Parse k v) records = map Inr pairs \<and> agree pairs \<and>
               bindings = map binding_of (first_occurrences pairs)))
   \<and> (\<forall>pairs. map (row_pair Parse k v) records = map Inr pairs \<and> distinct (map fst pairs) \<longrightarrow>
          (\<exists>seen. loop Parse String k v (Map.empty, []) records = Inr (seen, map binding_of pairs)))
   \<and> (\<forall>st rec p seenLabel.
          row_pair Parse k v rec = Inr p \<and> fst st (fst p) = Some seenLabel \<and> Equal seenLabel (snd p) \<longrightarrow>
          loop_body Parse String k v st rec = Inr st)"
proof (intro conjI allI impI)
  show "(\<exists>seen. loop Parse String k v (Map.empty, []) records = Inr (seen, bindings)) \<longleftrightarrow>
      (\<exists>pairs. map (row_pair Parse k v) records = map Inr pairs \<and> agree pairs \<and>
               bindings = map binding_of (first_occurrences pairs))"
  proof
    assume "\<exists>seen. loop Parse String k v (Map.empty, []) records = Inr (seen, bindings)"
    then obtain seen where "loop Parse String k v (state_after []) records = Inr (seen, bindings)"
      by (auto simp: state_after_Nil)
    from loop_after_result [OF this agree_Nil] obtain pairs where
      "map (row_pair Parse k v) records = map Inr pairs" "agree pairs"
      "(seen, bindings) = state_after pairs"
      by auto
    then show "\<exists>pairs. map (row_pair Parse k v) records = map Inr pairs \<and> agree pairs \<and>
               bindings = map binding_of (first_occurrences pairs)"
      by (auto simp: state_after_def)
  next
    assume "\<exists>pairs. map (row_pair Parse k v) records = map Inr pairs \<and> agree pairs \<and>
               bindings = map binding_of (first_occurrences pairs)"
    then obtain pairs where p: "map (row_pair Parse k v) records = map Inr pairs"
      and a: "agree ([] @ pairs)" and b: "bindings = map binding_of (first_occurrences pairs)"
      by auto
    from loop_after_ok [OF p a, of String] b
    show "\<exists>seen. loop Parse String k v (Map.empty, []) records = Inr (seen, bindings)"
      by (simp add: state_after_def)
  qed
next
  fix pairs
  assume h: "map (row_pair Parse k v) records = map Inr pairs \<and> distinct (map fst pairs)"
  then have d: "distinct (map fst pairs)" and p: "map (row_pair Parse k v) records = map Inr pairs"
    by auto
  have "agree pairs"
    unfolding agree_def Equal_iff
  proof (intro ballI impI)
    fix x y assume "x \<in> set pairs" "y \<in> set pairs" "fst x = fst y"
    moreover from d have "inj_on fst (set pairs)" by (simp add: distinct_map)
    ultimately have "x = y" by (auto dest: inj_onD)
    then show "snd x = snd y" by simp
  qed
  then have a: "agree ([] @ pairs)" by simp
  from loop_after_ok [OF p a, of String] first_occurrences_distinct [OF d]
  show "\<exists>seen. loop Parse String k v (Map.empty, []) records = Inr (seen, map binding_of pairs)"
    by (simp add: state_after_def)
next
  fix st :: loop_state and rec p seenLabel
  assume "row_pair Parse k v rec = Inr p \<and> fst st (fst p) = Some seenLabel \<and> Equal seenLabel (snd p)"
  then show "loop_body Parse String k v st rec = Inr st"
    by (simp add: loop_body_row_pair)
qed

theorem bindings_are_first_occurrences_witness:
  "(\<exists>seen. loop Parse_full String_full 0 1 (Map.empty, [])
       [[''a'', ''@r//p:x'', ''1'', ''2''], [''b'', ''@r//p:y'', ''3'', ''4''],
        [''a'', ''@r//p:x'', ''5'', ''6'']]
     = Inr (seen, [\<lparr>Import = ''a'', Label = \<lparr>Repo = ''r'', Pkg = ''p'', Name = ''x''\<rparr>\<rparr>,
                   \<lparr>Import = ''b'', Label = \<lparr>Repo = ''r'', Pkg = ''p'', Name = ''y''\<rparr>\<rparr>]))
   \<and> (\<exists>seen. loop Parse_full String_full 0 1 (Map.empty, [])
       [[''a'', ''@r//p:x'', ''1'', ''2''], [''b'', ''@r//p:y'', ''3'', ''4'']]
     = Inr (seen, [\<lparr>Import = ''a'', Label = \<lparr>Repo = ''r'', Pkg = ''p'', Name = ''x''\<rparr>\<rparr>,
                   \<lparr>Import = ''b'', Label = \<lparr>Repo = ''r'', Pkg = ''p'', Name = ''y''\<rparr>\<rparr>]))
   \<and> loop_body Parse_full String_full 0 1
        ([''a'' \<mapsto> \<lparr>Repo = ''r'', Pkg = ''p'', Name = ''x''\<rparr>],
         [\<lparr>Import = ''a'', Label = \<lparr>Repo = ''r'', Pkg = ''p'', Name = ''x''\<rparr>\<rparr>])
        [''a'', ''@r//p:x'', ''5'', ''6'']
     = Inr ([''a'' \<mapsto> \<lparr>Repo = ''r'', Pkg = ''p'', Name = ''x''\<rparr>],
            [\<lparr>Import = ''a'', Label = \<lparr>Repo = ''r'', Pkg = ''p'', Name = ''x''\<rparr>\<rparr>])"
proof -
  define X where "X = \<lparr>Repo = ''r'', Pkg = ''p'', Name = ''x''\<rparr>"
  define Y where "Y = \<lparr>Repo = ''r'', Pkg = ''p'', Name = ''y''\<rparr>"
  define records where "records =
    [[''a'', ''@r//p:x'', ''1'', ''2''], [''b'', ''@r//p:y'', ''3'', ''4''],
     [''a'', ''@r//p:x'', ''5'', ''6'']]"
  define pairs where "pairs = [(''a'', X), (''b'', Y), (''a'', X)]"
  have rows: "map (row_pair Parse_full 0 1) records = map Inr pairs"
    by (simp add: records_def pairs_def X_def Y_def row_pair_def index_def Parse_full_def)
  have ag: "agree pairs"
    by (simp add: agree_def pairs_def Equal_def)
  have fo: "map binding_of (first_occurrences pairs) =
      [\<lparr>Import = ''a'', Label = X\<rparr>, \<lparr>Import = ''b'', Label = Y\<rparr>]"
    by (simp add: pairs_def binding_of_def)
  have row: "row_pair Parse_full 0 1 [''a'', ''@r//p:x'', ''5'', ''6''] = Inr (''a'', X)"
    by (simp add: X_def row_pair_def index_def Parse_full_def)
  note inst = bindings_are_first_occurrences [of Parse_full String_full 0 1 records
      "[\<lparr>Import = ''a'', Label = X\<rparr>, \<lparr>Import = ''b'', Label = Y\<rparr>]"]
  from inst rows ag fo
  have 1: "\<exists>seen. loop Parse_full String_full 0 1 (Map.empty, []) records
      = Inr (seen, [\<lparr>Import = ''a'', Label = X\<rparr>, \<lparr>Import = ''b'', Label = Y\<rparr>])"
    by metis
  from inst row
  have 2: "loop_body Parse_full String_full 0 1 ([''a'' \<mapsto> X], [\<lparr>Import = ''a'', Label = X\<rparr>])
        [''a'', ''@r//p:x'', ''5'', ''6'']
      = Inr ([''a'' \<mapsto> X], [\<lparr>Import = ''a'', Label = X\<rparr>])"
    by (simp add: Equal_def)
  define records2 where "records2 =
    [[''a'', ''@r//p:x'', ''1'', ''2''], [''b'', ''@r//p:y'', ''3'', ''4'']]"
  have rows2: "map (row_pair Parse_full 0 1) records2 = map Inr [(''a'', X), (''b'', Y)]"
    by (simp add: records2_def X_def Y_def row_pair_def index_def Parse_full_def)
  have dist: "distinct (map fst [(''a'', X), (''b'', Y)])"
    by simp
  from bindings_are_first_occurrences [of Parse_full String_full 0 1 records2 "[]"] rows2 dist
  have "\<exists>seen. loop Parse_full String_full 0 1 (Map.empty, []) records2
      = Inr (seen, map binding_of [(''a'', X), (''b'', Y)])"
    by blast
  then have 3: "\<exists>seen. loop Parse_full String_full 0 1 (Map.empty, []) records2
      = Inr (seen, [\<lparr>Import = ''a'', Label = X\<rparr>, \<lparr>Import = ''b'', Label = Y\<rparr>])"
    by (simp add: binding_of_def)
  from 1 2 3 show ?thesis
    unfolding records_def records2_def X_def Y_def by blast
qed

section \<open>Conflicting labels\<close>

text \<open>
  Claim C2 says that every input with the same import key twice, under two different
  parsed labels, makes the run fail with an error naming the key and both labels. The run
  does fail, but it returns the first error in row order: in the input below the key
  \<^verbatim>\<open>a\<close> has the labels \<^verbatim>\<open>@r//p:x\<close> and \<^verbatim>\<open>@r//p:y\<close>, and the run fails on the row
  between them, whose value does not parse, with that parse error, which names neither
  the key nor a label.
\<close>

theorem conflicting_labels_counterexample:
  "ReadAll \<lparr>FieldsPerRecord = 4, rd = (masked_conflict, EOF)\<rparr> =
     Inr [[''a'', ''@r//p:x'', ''1'', ''2''], [''b'', ''@r//p:'', ''3'', ''4''],
          [''a'', ''@r//p:y'', ''5'', ''6'']]
   \<and> row_pair Parse_full 0 1 [''a'', ''@r//p:x'', ''1'', ''2'']
       = Inr (''a'', \<lparr>Repo = ''r'', Pkg = ''p'', Name = ''x''\<rparr>)
   \<and> row_pair Parse_full 0 1 [''a'', ''@r//p:y'', ''5'', ''6'']
       = Inr (''a'', \<lparr>Repo = ''r'', Pkg = ''p'', Name = ''y''\<rparr>)
   \<and> \<not> Equal \<lparr>Repo = ''r'', Pkg = ''p'', Name = ''x''\<rparr> \<lparr>Repo = ''r'', Pkg = ''p'', Name = ''y''\<rparr>
   \<and> run Parse_full String_full (knownImportsTpl quote) (one_file masked_conflict) (flags_of 0 1)
       = (Some (Err (Errorf ''label parse error: @r//p:'')),
          [EvOpen ''in.csv'', EvReadAll ''in.csv'', EvClose ''in.csv''])
   \<and> (\<forall>imp l1 l2. Errorf ''label parse error: @r//p:'' \<noteq> Errorf (conflict_message String_full imp l1 l2))"
proof (intro conjI allI)
  show "ReadAll \<lparr>FieldsPerRecord = 4, rd = (masked_conflict, EOF)\<rparr> =
     Inr [[''a'', ''@r//p:x'', ''1'', ''2''], [''b'', ''@r//p:'', ''3'', ''4''],
          [''a'', ''@r//p:y'', ''5'', ''6'']]"
    by code_simp
  show "row_pair Parse_full 0 1 [''a'', ''@r//p:x'', ''1'', ''2'']
       = Inr (''a'', \<lparr>Repo = ''r'', Pkg = ''p'', Name = ''x''\<rparr>)"
    by code_simp
  show "row_pair Parse_full 0 1 [''a'', ''@r//p:y'', ''5'', ''6'']
       = Inr (''a'', \<lparr>Repo = ''r'', Pkg = ''p'', Name = ''y''\<rparr>)"
    by code_simp
  show "\<not> Equal \<lparr>Repo = ''r'', Pkg = ''p'', Name = ''x''\<rparr> \<lparr>Repo = ''r'', Pkg = ''p'', Name = ''y''\<rparr>"
    by (simp add: Equal_def)
  show "run Parse_full String_full (knownImportsTpl quote) (one_file masked_conflict) (flags_of 0 1)
       = (Some (Err (Errorf ''label parse error: @r//p:'')),
          [EvOpen ''in.csv'', EvReadAll ''in.csv'', EvClose ''in.csv''])"
    by code_simp
  show "Errorf ''label parse error: @r//p:'' \<noteq> Errorf (conflict_message String_full imp l1 l2)"
    for imp l1 l2
    by (simp add: conflict_message_def)
qed

text \<open>
  Claim C2, amended. When the input read has a first part \<open>pre\<close> in which every row has a
  pair (its columns exist and its value parses) and some key has two different labels,
  the run fails with the conflict error of a key of \<open>pre\<close>: the message names that key, the
  label first recorded for it and a different label that a later row of \<open>pre\<close> gives it.
  The run returns no bindings and its events are those of the input file only, so
  nothing is written. (A row that fails to parse before the conflict is reached makes the
  run return that parse error instead.)
\<close>

theorem conflicting_labels_fail:
  assumes "flags_set fl"
    and "openResult e (protoCsvPath fl) = Inr s"
    and "ReadAll \<lparr>FieldsPerRecord = 4, rd = s\<rparr> = Inr (pre @ rest)"
    and "map (row_pair Parse (keyColumn fl) (valueColumn fl)) pre = map Inr pairs"
    and "p \<in> set pairs" and "q \<in> set pairs" and "fst p = fst q" and "\<not> Equal (snd p) (snd q)"
  shows "\<exists>imp l1 l2. map_of pairs imp = Some l1 \<and> (imp, l2) \<in> set pairs \<and> \<not> Equal l1 l2 \<and>
           run Parse String Execute e fl =
             (Some (Err (Errorf (conflict_message String imp l1 l2))), input_events fl)"
proof -
  from assms(5-8) have "\<not> agree ([] @ pairs)"
    by (auto simp: agree_def)
  from loop_after_conflict [OF assms(4) agree_Nil this, of String rest]
  obtain imp l1 l2 where c: "map_of pairs imp = Some l1" "(imp, l2) \<in> set pairs" "\<not> Equal l1 l2"
    and l: "loop Parse String (keyColumn fl) (valueColumn fl) (Map.empty, []) (pre @ rest) =
          Inl (Err (Errorf (conflict_message String imp l1 l2)))"
    by (auto simp: state_after_Nil)
  from run_loop_fail [OF assms(1) assms(2) assms(3) l] c show ?thesis
    by blast
qed

theorem conflicting_labels_fail_witness:
  "run Parse_full String_full (knownImportsTpl quote) (one_file plain_conflict) (flags_of 0 1) =
     (Some (Err (Errorf ''for key a, multiple values (@r//p:x and @r//p:y)'')),
      [EvOpen ''in.csv'', EvReadAll ''in.csv'', EvClose ''in.csv''])"
proof -
  define X where "X = \<lparr>Repo = ''r'', Pkg = ''p'', Name = ''x''\<rparr>"
  define Y where "Y = \<lparr>Repo = ''r'', Pkg = ''p'', Name = ''y''\<rparr>"
  define Z where "Z = \<lparr>Repo = ''r'', Pkg = ''p'', Name = ''z''\<rparr>"
  define pairs where "pairs = [(''a'', X), (''b'', Z), (''a'', Y)]"
  define pre where "pre = [[''a'', ''@r//p:x'', ''1'', ''2''], [''b'', ''@r//p:z'', ''3'', ''4''],
          [''a'', ''@r//p:y'', ''5'', ''6'']]"
  have fs: "flags_set (flags_of 0 1)"
    by (simp add: flags_set_def flags_of_def)
  have op: "openResult (one_file plain_conflict) (protoCsvPath (flags_of 0 1)) = Inr (plain_conflict, EOF)"
    by (simp add: one_file_def flags_of_def)
  have rd: "ReadAll \<lparr>FieldsPerRecord = 4, rd = (plain_conflict, EOF)\<rparr> = Inr (pre @ [])"
    unfolding pre_def by code_simp
  have rows: "map (row_pair Parse_full (keyColumn (flags_of 0 1)) (valueColumn (flags_of 0 1))) pre
        = map Inr pairs"
    by (simp add: pre_def pairs_def X_def Y_def Z_def row_pair_def index_def Parse_full_def flags_of_def)
  have m: "(''a'', X) \<in> set pairs" "(''a'', Y) \<in> set pairs" "fst (''a'', X) = fst (''a'', Y)"
    "\<not> Equal (snd (''a'', X)) (snd (''a'', Y))"
    by (simp_all add: pairs_def Equal_def X_def Y_def)
  from conflicting_labels_fail [OF fs op rd rows m, of String_full "knownImportsTpl quote"]
  obtain imp l1 l2 where c: "map_of pairs imp = Some l1" "(imp, l2) \<in> set pairs" "\<not> Equal l1 l2"
    and r: "run Parse_full String_full (knownImportsTpl quote) (one_file plain_conflict) (flags_of 0 1) =
             (Some (Err (Errorf (conflict_message String_full imp l1 l2))), input_events (flags_of 0 1))"
    by blast
  from c have "imp = ''a'' \<and> l1 = X \<and> l2 = Y"
    by (auto simp: pairs_def Equal_def X_def Y_def Z_def split: if_splits)
  with r show ?thesis
    by (simp add: conflict_message_def String_full_def X_def Y_def input_events_def flags_of_def)
qed

section \<open>Parsing comes before the duplicate check\<close>

text \<open>
  Claim C10. Label parsing precedes the duplicate check. When the rows before a row \<open>rec\<close>
  pass the loop, and the value column of \<open>rec\<close> fails to parse with the error \<open>err\<close>, the
  run returns \<open>err\<close>, whatever the map \<open>seen\<close> holds for the key of \<open>rec\<close> at that point: also
  when the key was already seen. The events are those of the input file only.
\<close>

theorem parse_error_before_duplicate_check:
  assumes "flags_set fl"
    and "openResult e (protoCsvPath fl) = Inr s"
    and "ReadAll \<lparr>FieldsPerRecord = 4, rd = s\<rparr> = Inr (pre @ rec # rest)"
    and "loop Parse String (keyColumn fl) (valueColumn fl) (Map.empty, []) pre = Inr (seen, bindings)"
    and "index rec (keyColumn fl) = Inr imp"
    and "index rec (valueColumn fl) = Inr val"
    and "Parse val = Inl err"
  shows "loop_body Parse String (keyColumn fl) (valueColumn fl) (seen, bindings) rec = Inl (Err err)
    \<and> run Parse String Execute e fl = (Some (Err err), input_events fl)"
proof -
  from assms(5-7)
  have body: "loop_body Parse String (keyColumn fl) (valueColumn fl) (seen, bindings) rec = Inl (Err err)"
    by (simp add: loop_body_def)
  with assms(4)
  have "loop Parse String (keyColumn fl) (valueColumn fl) (Map.empty, []) (pre @ rec # rest) = Inl (Err err)"
    by (simp add: loop_append)
  from run_loop_fail [OF assms(1) assms(2) assms(3) this] body show ?thesis
    by simp
qed

theorem parse_error_before_duplicate_check_witness:
  "loop_body Parse_full String_full 0 1
      ([''a'' \<mapsto> \<lparr>Repo = ''r'', Pkg = ''p'', Name = ''x''\<rparr>],
       [\<lparr>Import = ''a'', Label = \<lparr>Repo = ''r'', Pkg = ''p'', Name = ''x''\<rparr>\<rparr>])
      [''a'', ''@r//p:'', ''3'', ''4'']
     = Inl (Err (Errorf ''label parse error: @r//p:''))
   \<and> run Parse_full String_full (knownImportsTpl quote) (one_file seen_then_unparsed) (flags_of 0 1)
     = (Some (Err (Errorf ''label parse error: @r//p:'')),
        [EvOpen ''in.csv'', EvReadAll ''in.csv'', EvClose ''in.csv''])"
proof -
  define X where "X = \<lparr>Repo = ''r'', Pkg = ''p'', Name = ''x''\<rparr>"
  have fs: "flags_set (flags_of 0 1)"
    by (simp add: flags_set_def flags_of_def)
  have op: "openResult (one_file seen_then_unparsed) (protoCsvPath (flags_of 0 1))
        = Inr (seen_then_unparsed, EOF)"
    by (simp add: one_file_def flags_of_def)
  have rd: "ReadAll \<lparr>FieldsPerRecord = 4, rd = (seen_then_unparsed, EOF)\<rparr>
        = Inr ([[''a'', ''@r//p:x'', ''1'', ''2'']] @ [''a'', ''@r//p:'', ''3'', ''4''] # [])"
    by code_simp
  have pre: "loop Parse_full String_full (keyColumn (flags_of 0 1)) (valueColumn (flags_of 0 1))
        (Map.empty, []) [[''a'', ''@r//p:x'', ''1'', ''2'']]
        = Inr ([''a'' \<mapsto> X], [\<lparr>Import = ''a'', Label = X\<rparr>])"
    by (simp add: flags_of_def loop_body_def index_def Parse_full_def X_def)
  have k: "index [''a'', ''@r//p:'', ''3'', ''4''] (keyColumn (flags_of 0 1)) = Inr ''a''"
    and v: "index [''a'', ''@r//p:'', ''3'', ''4''] (valueColumn (flags_of 0 1)) = Inr ''@r//p:''"
    by (simp_all add: flags_of_def index_def)
  have p: "Parse_full ''@r//p:'' = Inl (Errorf ''label parse error: @r//p:'')"
    by (simp add: Parse_full_def)
  from parse_error_before_duplicate_check [OF fs op rd pre k v p, of "knownImportsTpl quote"]
  show ?thesis
    by (simp add: X_def flags_of_def input_events_def)
qed

section \<open>Column indices\<close>

lemma readRecord_FieldsPerRecord:
  assumes "FieldsPerRecord r \<noteq> 0"
  shows "FieldsPerRecord (snd (readRecord r)) = FieldsPerRecord r"
proof -
  obtain line errRead s where sk: "skipLines (rd r) = ((line, errRead), s)"
    by (metis prod.exhaust)
  show ?thesis
  proof (cases "errRead = Some EOF")
    case True
    with sk readRecord_eof [of r line s] show ?thesis by simp
  next
    case False
    obtain dst err er' s' where pf: "parseField line errRead s [] = (dst, err, er', s')"
      by (metis prod.exhaust)
    from readRecord_parsed(4) [OF sk False pf] assms show ?thesis by simp
  qed
qed

lemma readRecord_checked_length:
  assumes "FieldsPerRecord r > 0" and "readRecord r = ((recd, None), r')"
  shows "int (length recd) = FieldsPerRecord r"
proof -
  obtain line errRead s where sk: "skipLines (rd r) = ((line, errRead), s)"
    by (metis prod.exhaust)
  have neof: "errRead \<noteq> Some EOF"
  proof
    assume "errRead = Some EOF"
    with sk readRecord_eof [of r line s] assms(2) show False by simp
  qed
  obtain dst err er' s' where pf: "parseField line errRead s [] = (dst, err, er', s')"
    by (metis prod.exhaust)
  from readRecord_parsed(2) [OF sk neof pf] assms(2) have d: "dst = recd" by simp
  from readRecord_parsed(3) [OF sk neof pf] assms have "int (length dst) = FieldsPerRecord r"
    by (simp add: Let_def split: if_splits)
  with d show ?thesis by simp
qed

lemma ReadAll_loop_lengths:
  "ReadAll_loop r acc = Inr records \<Longrightarrow> FieldsPerRecord r > 0 \<Longrightarrow>
   \<forall>rec \<in> set acc. int (length rec) = FieldsPerRecord r \<Longrightarrow>
     \<forall>rec \<in> set records. int (length rec) = FieldsPerRecord r"
proof (induction r acc rule: ReadAll_loop.induct)
  case (1 r acc)
  obtain recd err r' where rr: "readRecord r = ((recd, err), r')"
    by (metis prod.exhaust)
  show ?case
  proof (cases err)
    case None
    with rr "1.prems"(1) have nxt: "ReadAll_loop r' (acc @ [recd]) = Inr records"
      by (subst (asm) ReadAll_loop.simps) simp
    from rr have r': "r' = snd (readRecord r)" by simp
    from "1.prems"(2) have fpr: "FieldsPerRecord r' = FieldsPerRecord r"
      unfolding r' by (intro readRecord_FieldsPerRecord) simp
    from readRecord_checked_length [OF "1.prems"(2)] rr None
    have len: "int (length recd) = FieldsPerRecord r" by simp
    from "1.IH" [OF rr [symmetric] refl None nxt] fpr "1.prems"(2,3) len
    show ?thesis by simp
  next
    case (Some e)
    with rr "1.prems"(1) have "records = acc"
      by (subst (asm) ReadAll_loop.simps) (simp split: if_splits)
    with "1.prems"(3) show ?thesis by simp
  qed
qed

lemma ReadAll_four_fields:
  "ReadAll \<lparr>FieldsPerRecord = 4, rd = s\<rparr> = Inr records \<Longrightarrow> \<forall>rec \<in> set records. length rec = 4"
  using ReadAll_loop_lengths [of "\<lparr>FieldsPerRecord = 4, rd = s\<rparr>" "[]" records]
  by (simp add: ReadAll_def)

lemma index_in_range:
  "0 \<le> i \<Longrightarrow> i < int (length xs) \<Longrightarrow> index xs i = Inr (xs ! nat i)"
  by (simp add: index_def)

lemma index_out_of_range:
  "i < 0 \<or> int (length xs) \<le> i \<Longrightarrow> index xs i = Inl PanicIndexOutOfRange"
  by (auto simp: index_def)

lemma loop_body_no_panic:
  "index rec k = Inr a \<Longrightarrow> index rec v = Inr b \<Longrightarrow>
     loop_body Parse String k v st rec \<noteq> Inl PanicIndexOutOfRange"
  by (simp add: loop_body_def split: sum.splits option.splits)

lemma loop_no_panic:
  "\<forall>rec \<in> set records. (\<exists>a. index rec k = Inr a) \<and> (\<exists>b. index rec v = Inr b) \<Longrightarrow>
     loop Parse String k v st records \<noteq> Inl PanicIndexOutOfRange"
proof (induction records arbitrary: st)
  case Nil
  show ?case by simp
next
  case (Cons rec records)
  then obtain a b where "index rec k = Inr a" "index rec v = Inr b" by auto
  then have "loop_body Parse String k v st rec \<noteq> Inl PanicIndexOutOfRange"
    by (rule loop_body_no_panic)
  with Cons show ?case
    by (cases "loop_body Parse String k v st rec") (auto split: sum.splits)
qed

lemma loop_panics_at_first_row:
  "index rec k = Inl PanicIndexOutOfRange \<or> index rec v = Inl PanicIndexOutOfRange \<Longrightarrow>
     loop Parse String k v st (rec # records) = Inl PanicIndexOutOfRange"
  by (auto simp: loop_body_def index_def split: sum.splits if_splits)

text \<open>
  Claim C9. The row fields are read without a guard. Every record that \<^verbatim>\<open>ReadAll\<close> returns
  has exactly 4 fields, so with both column indices in 0..3 every \<^verbatim>\<open>rec[keyColumn]\<close> and
  \<^verbatim>\<open>rec[valueColumn]\<close> is in range and the run does not panic. With a column index
  outside 0..3 and an input that has at least one record (a non-empty input: the loop
  body runs at least once), the run panics with index out of range on the first record,
  after the input file was opened, read and closed; it returns no configuration error.
\<close>

theorem column_index_guard_is_the_field_count:
  assumes "flags_set fl"
    and "openResult e (protoCsvPath fl) = Inr s"
    and "ReadAll \<lparr>FieldsPerRecord = 4, rd = s\<rparr> = Inr records"
  shows "(\<forall>rec \<in> set records. length rec = 4)
    \<and> (0 \<le> keyColumn fl \<and> keyColumn fl \<le> 3 \<and> 0 \<le> valueColumn fl \<and> valueColumn fl \<le> 3 \<longrightarrow>
         (\<forall>rec \<in> set records. index rec (keyColumn fl) = Inr (rec ! nat (keyColumn fl))
                              \<and> index rec (valueColumn fl) = Inr (rec ! nat (valueColumn fl)))
         \<and> fst (run Parse String Execute e fl) \<noteq> Some PanicIndexOutOfRange)
    \<and> ((keyColumn fl < 0 \<or> 3 < keyColumn fl \<or> valueColumn fl < 0 \<or> 3 < valueColumn fl)
          \<and> records \<noteq> [] \<longrightarrow>
         run Parse String Execute e fl = (Some PanicIndexOutOfRange, input_events fl))"
proof (intro conjI impI)
  from ReadAll_four_fields [OF assms(3)]
  show four: "\<forall>rec \<in> set records. length rec = 4" .
  {
    assume range: "0 \<le> keyColumn fl \<and> keyColumn fl \<le> 3 \<and> 0 \<le> valueColumn fl \<and> valueColumn fl \<le> 3"
    with four
    show safe: "\<forall>rec \<in> set records. index rec (keyColumn fl) = Inr (rec ! nat (keyColumn fl))
                              \<and> index rec (valueColumn fl) = Inr (rec ! nat (valueColumn fl))"
      by (simp add: index_in_range)
    then have np: "loop Parse String (keyColumn fl) (valueColumn fl) (Map.empty, []) records
          \<noteq> Inl PanicIndexOutOfRange"
      by (intro loop_no_panic) blast
    show "fst (run Parse String Execute e fl) \<noteq> Some PanicIndexOutOfRange"
    proof (cases "loop Parse String (keyColumn fl) (valueColumn fl) (Map.empty, []) records")
      case (Inl f)
      with np run_loop_fail [OF assms Inl] show ?thesis by simp
    next
      case (Inr st)
      obtain seen bindings where st: "st = (seen, bindings)" by (cases st)
      show ?thesis
      proof (cases "Execute (data_of fl bindings)")
        case (Inl err)
        from run_exec_fail [where Execute = Execute, OF assms Inr [unfolded st] Inl] show ?thesis by simp
      next
        case Inr2: (Inr buf)
        from run_write [where Execute = Execute, OF assms Inr [unfolded st] Inr2] show ?thesis
          by (cases "writeResult e (knownImportsPath fl) buf") simp_all
      qed
    qed
  }
  {
    assume out: "(keyColumn fl < 0 \<or> 3 < keyColumn fl \<or> valueColumn fl < 0 \<or> 3 < valueColumn fl)
          \<and> records \<noteq> []"
    then obtain rec rest where recs: "records = rec # rest" by (cases records) auto
    with four have "length rec = 4" by simp
    with out have "index rec (keyColumn fl) = Inl PanicIndexOutOfRange
        \<or> index rec (valueColumn fl) = Inl PanicIndexOutOfRange"
      by (auto simp: index_def)
    then have "loop Parse String (keyColumn fl) (valueColumn fl) (Map.empty, []) records
        = Inl PanicIndexOutOfRange"
      unfolding recs by (rule loop_panics_at_first_row)
    from run_loop_fail [OF assms this]
    show "run Parse String Execute e fl = (Some PanicIndexOutOfRange, input_events fl)" .
  }
qed

theorem column_index_guard_is_the_field_count_witness:
  "fst (run Parse_full String_full (knownImportsTpl quote) (one_file one_row) (flags_of 0 1))
     \<noteq> Some PanicIndexOutOfRange
   \<and> run Parse_full String_full (knownImportsTpl quote) (one_file one_row) (flags_of 0 4)
     = (Some PanicIndexOutOfRange, [EvOpen ''in.csv'', EvReadAll ''in.csv'', EvClose ''in.csv''])
   \<and> run Parse_full String_full (knownImportsTpl quote) (one_file one_row) (flags_of (- 1) 1)
     = (Some PanicIndexOutOfRange, [EvOpen ''in.csv'', EvReadAll ''in.csv'', EvClose ''in.csv''])"
proof -
  have rd: "ReadAll \<lparr>FieldsPerRecord = 4, rd = (one_row, EOF)\<rparr> = Inr [[''a'', ''@r//p:x'', ''1'', ''2'']]"
    by code_simp
  have fs: "flags_set (flags_of k v)" for k v
    by (simp add: flags_set_def flags_of_def)
  have op: "openResult (one_file one_row) (protoCsvPath (flags_of k v)) = Inr (one_row, EOF)" for k v
    by (simp add: one_file_def flags_of_def)
  from column_index_guard_is_the_field_count [OF fs op rd, of 0 1 Parse_full String_full "knownImportsTpl quote"]
  have 1: "fst (run Parse_full String_full (knownImportsTpl quote) (one_file one_row) (flags_of 0 1))
     \<noteq> Some PanicIndexOutOfRange"
    by (simp add: flags_of_def)
  from column_index_guard_is_the_field_count [OF fs op rd, of 0 4 Parse_full String_full "knownImportsTpl quote"]
  have 2: "run Parse_full String_full (knownImportsTpl quote) (one_file one_row) (flags_of 0 4)
     = (Some PanicIndexOutOfRange, [EvOpen ''in.csv'', EvReadAll ''in.csv'', EvClose ''in.csv''])"
    by (simp add: flags_of_def input_events_def)
  from column_index_guard_is_the_field_count [OF fs op rd, of "- 1" 1 Parse_full String_full "knownImportsTpl quote"]
  have 3: "run Parse_full String_full (knownImportsTpl quote) (one_file one_row) (flags_of (- 1) 1)
     = (Some PanicIndexOutOfRange, [EvOpen ''in.csv'', EvReadAll ''in.csv'', EvClose ''in.csv''])"
    by (simp add: flags_of_def input_events_def)
  from 1 2 3 show ?thesis by blast
qed

section \<open>The input file is closed after the read\<close>

text \<open>
  Claim C8. Whenever the input file is opened successfully, the events of the run start
  with the open, the read and the close of that file, in this order and next to each
  other; the close happens once; and anything after it is the one write of the output
  file. This holds for every result of the read (records or an error) and of the later
  stages, so the file is closed on the successful and on the failing read path, before
  the bindings are built, the template is rendered or the output is written.
\<close>

theorem input_closed_once_after_read:
  assumes "flags_set fl"
    and "openResult e (protoCsvPath fl) = Inr s"
  shows "\<exists>later.
      snd (run Parse String Execute e fl) =
        [EvOpen (protoCsvPath fl), EvReadAll (protoCsvPath fl), EvClose (protoCsvPath fl)] @ later
    \<and> (later = [] \<or> (\<exists>buf. later = [EvWriteFile (knownImportsPath fl) buf 438]))
    \<and> length (filter (\<lambda>ev. ev = EvClose (protoCsvPath fl)) (snd (run Parse String Execute e fl))) = 1
    \<and> (\<forall>err. ReadAll \<lparr>FieldsPerRecord = 4, rd = s\<rparr> = Inl err \<longrightarrow>
           run Parse String Execute e fl = (Some (Err err), input_events fl))"
proof (cases "ReadAll \<lparr>FieldsPerRecord = 4, rd = s\<rparr>")
  case (Inl err)
  from run_read_fail [OF assms Inl] Inl show ?thesis
    by (simp add: input_events_def)
next
  case (Inr records)
  show ?thesis
  proof (cases "loop Parse String (keyColumn fl) (valueColumn fl) (Map.empty, []) records")
    case (Inl f)
    from run_loop_fail [OF assms Inr Inl] Inr show ?thesis
      by (simp add: input_events_def)
  next
    case Inr1: (Inr st)
    obtain seen bindings where st: "st = (seen, bindings)" by (cases st)
    show ?thesis
    proof (cases "Execute (data_of fl bindings)")
      case (Inl err)
      from run_exec_fail [where Execute = Execute, OF assms Inr Inr1 [unfolded st] Inl] Inr
      show ?thesis by (simp add: input_events_def)
    next
      case Inr2: (Inr buf)
      from run_write [where Execute = Execute, OF assms Inr Inr1 [unfolded st] Inr2] Inr
      show ?thesis by (simp add: input_events_def)
    qed
  qed
qed

theorem input_closed_once_after_read_witness:
  "snd (run Parse_full String_full (knownImportsTpl quote) (one_file short_row) (flags_of 0 1))
     = [EvOpen ''in.csv'', EvReadAll ''in.csv'', EvClose ''in.csv'']
   \<and> fst (run Parse_full String_full (knownImportsTpl quote) (one_file short_row) (flags_of 0 1))
     = Some (Err (ParseError ErrFieldCount))
   \<and> (\<exists>buf. snd (run Parse_full String_full (knownImportsTpl quote) (one_file one_row) (flags_of 0 1))
     = [EvOpen ''in.csv'', EvReadAll ''in.csv'', EvClose ''in.csv'', EvWriteFile ''out.go'' buf 438])"
proof -
  have fs: "flags_set (flags_of 0 1)"
    by (simp add: flags_set_def flags_of_def)
  have op: "openResult (one_file bytes) (protoCsvPath (flags_of 0 1)) = Inr (bytes, EOF)" for bytes
    by (simp add: one_file_def flags_of_def)
  have bad: "ReadAll \<lparr>FieldsPerRecord = 4, rd = (short_row, EOF)\<rparr> = Inl (ParseError ErrFieldCount)"
    by code_simp
  from input_closed_once_after_read [OF fs op, of Parse_full String_full "knownImportsTpl quote" short_row] bad
  have 1: "run Parse_full String_full (knownImportsTpl quote) (one_file short_row) (flags_of 0 1)
      = (Some (Err (ParseError ErrFieldCount)), [EvOpen ''in.csv'', EvReadAll ''in.csv'', EvClose ''in.csv''])"
    by (auto simp: input_events_def flags_of_def)
  have ok: "fst (run Parse_full String_full (knownImportsTpl quote) (one_file one_row) (flags_of 0 1)) = None"
    by code_simp
  have len: "length (snd (run Parse_full String_full (knownImportsTpl quote) (one_file one_row) (flags_of 0 1))) = 4"
    by code_simp
  from input_closed_once_after_read [OF fs op, of Parse_full String_full "knownImportsTpl quote" one_row]
  obtain later where
    tr: "snd (run Parse_full String_full (knownImportsTpl quote) (one_file one_row) (flags_of 0 1)) =
        [EvOpen ''in.csv'', EvReadAll ''in.csv'', EvClose ''in.csv''] @ later"
    and l: "later = [] \<or> (\<exists>buf. later = [EvWriteFile ''out.go'' buf 438])"
    by (auto simp: flags_of_def)
  from tr len have "later \<noteq> []" by auto
  with l tr have 2: "\<exists>buf. snd (run Parse_full String_full (knownImportsTpl quote) (one_file one_row) (flags_of 0 1))
     = [EvOpen ''in.csv'', EvReadAll ''in.csv'', EvClose ''in.csv'', EvWriteFile ''out.go'' buf 438]"
    by auto
  from 1 2 show ?thesis by simp
qed

section \<open>Fail fast, no partial output\<close>

text \<open>
  Claim C3. The stages run in order: configuration, opening and reading the input, the
  binding loop (label parsing and conflict detection), rendering, writing. When a stage
  before the writer fails, \<open>run\<close> returns the error of that stage (for the loop also its
  panic) and its events are at most those of the input file: no write. The output file is
  written exactly when all the stages before the writer succeeded, and then as the last
  event, with the rendered bytes.
\<close>

theorem fail_fast_no_partial_output:
  "(\<not> flags_set fl \<longrightarrow>
      (\<exists>m. run Parse String Execute e fl = (Some (Err (Errorf m)), [])))
   \<and> (flags_set fl \<longrightarrow>
      (\<forall>err. openResult e (protoCsvPath fl) = Inl err \<longrightarrow>
         run Parse String Execute e fl = (Some (Err err), [EvOpen (protoCsvPath fl)]))
    \<and> (\<forall>s. openResult e (protoCsvPath fl) = Inr s \<longrightarrow>
         (\<forall>err. ReadAll \<lparr>FieldsPerRecord = 4, rd = s\<rparr> = Inl err \<longrightarrow>
            run Parse String Execute e fl = (Some (Err err), input_events fl))
       \<and> (\<forall>records. ReadAll \<lparr>FieldsPerRecord = 4, rd = s\<rparr> = Inr records \<longrightarrow>
            (\<forall>f. loop Parse String (keyColumn fl) (valueColumn fl) (Map.empty, []) records = Inl f \<longrightarrow>
               run Parse String Execute e fl = (Some f, input_events fl))
          \<and> (\<forall>seen bindings.
               loop Parse String (keyColumn fl) (valueColumn fl) (Map.empty, []) records
                 = Inr (seen, bindings) \<longrightarrow>
               (\<forall>err. Execute (data_of fl bindings) = Inl err \<longrightarrow>
                  run Parse String Execute e fl = (Some (Err err), input_events fl))
             \<and> (\<forall>buf. Execute (data_of fl bindings) = Inr buf \<longrightarrow>
                  run Parse String Execute e fl =
                    (map_option Err (writeResult e (knownImportsPath fl) buf),
                     input_events fl @ [EvWriteFile (knownImportsPath fl) buf 438]))))))
   \<and> (list_ex is_write (snd (run Parse String Execute e fl)) \<longleftrightarrow>
        flags_set fl \<and>
        (\<exists>s records seen bindings buf.
           openResult e (protoCsvPath fl) = Inr s \<and>
           ReadAll \<lparr>FieldsPerRecord = 4, rd = s\<rparr> = Inr records \<and>
           loop Parse String (keyColumn fl) (valueColumn fl) (Map.empty, []) records
             = Inr (seen, bindings) \<and>
           Execute (data_of fl bindings) = Inr buf))"
proof (intro conjI)
  show "\<not> flags_set fl \<longrightarrow> (\<exists>m. run Parse String Execute e fl = (Some (Err (Errorf m)), []))"
    by (auto simp: run_def flags_set_def)
  show "flags_set fl \<longrightarrow>
      (\<forall>err. openResult e (protoCsvPath fl) = Inl err \<longrightarrow>
         run Parse String Execute e fl = (Some (Err err), [EvOpen (protoCsvPath fl)]))
    \<and> (\<forall>s. openResult e (protoCsvPath fl) = Inr s \<longrightarrow>
         (\<forall>err. ReadAll \<lparr>FieldsPerRecord = 4, rd = s\<rparr> = Inl err \<longrightarrow>
            run Parse String Execute e fl = (Some (Err err), input_events fl))
       \<and> (\<forall>records. ReadAll \<lparr>FieldsPerRecord = 4, rd = s\<rparr> = Inr records \<longrightarrow>
            (\<forall>f. loop Parse String (keyColumn fl) (valueColumn fl) (Map.empty, []) records = Inl f \<longrightarrow>
               run Parse String Execute e fl = (Some f, input_events fl))
          \<and> (\<forall>seen bindings.
               loop Parse String (keyColumn fl) (valueColumn fl) (Map.empty, []) records
                 = Inr (seen, bindings) \<longrightarrow>
               (\<forall>err. Execute (data_of fl bindings) = Inl err \<longrightarrow>
                  run Parse String Execute e fl = (Some (Err err), input_events fl))
             \<and> (\<forall>buf. Execute (data_of fl bindings) = Inr buf \<longrightarrow>
                  run Parse String Execute e fl =
                    (map_option Err (writeResult e (knownImportsPath fl) buf),
                     input_events fl @ [EvWriteFile (knownImportsPath fl) buf 438])))))"
    by (intro impI conjI allI)
       (erule (1) run_open_fail, erule (2) run_read_fail, erule (3) run_loop_fail,
        erule (4) run_exec_fail, erule (4) run_write)
  show "list_ex is_write (snd (run Parse String Execute e fl)) \<longleftrightarrow>
        flags_set fl \<and>
        (\<exists>s records seen bindings buf.
           openResult e (protoCsvPath fl) = Inr s \<and>
           ReadAll \<lparr>FieldsPerRecord = 4, rd = s\<rparr> = Inr records \<and>
           loop Parse String (keyColumn fl) (valueColumn fl) (Map.empty, []) records
             = Inr (seen, bindings) \<and>
           Execute (data_of fl bindings) = Inr buf)"
  proof (cases "flags_set fl")
    case False
    then show ?thesis by (auto simp: run_def flags_set_def)
  next
    case fs: True
    show ?thesis
    proof (cases "openResult e (protoCsvPath fl)")
      case (Inl err)
      from run_open_fail [OF fs Inl] Inl show ?thesis by simp
    next
      case op: (Inr s)
      show ?thesis
      proof (cases "ReadAll \<lparr>FieldsPerRecord = 4, rd = s\<rparr>")
        case (Inl err)
        from run_read_fail [OF fs op Inl] op Inl show ?thesis
          by (simp add: input_events_def)
      next
        case rd: (Inr records)
        show ?thesis
        proof (cases "loop Parse String (keyColumn fl) (valueColumn fl) (Map.empty, []) records")
          case (Inl f)
          from run_loop_fail [OF fs op rd Inl] op rd Inl show ?thesis
            by (simp add: input_events_def)
        next
          case lp: (Inr st)
          obtain seen bindings where st: "st = (seen, bindings)" by (cases st)
          show ?thesis
          proof (cases "Execute (data_of fl bindings)")
            case (Inl err)
            from run_exec_fail [where Execute = Execute, OF fs op rd lp [unfolded st] Inl]
              op rd lp st Inl
            show ?thesis by (simp add: input_events_def)
          next
            case ex: (Inr buf)
            from run_write [where Execute = Execute, OF fs op rd lp [unfolded st] ex]
              fs op rd lp st ex
            show ?thesis by (simp add: input_events_def)
          qed
        qed
      qed
    qed
  qed
qed

theorem fail_fast_no_partial_output_witness:
  "(\<exists>m. run Parse_full String_full (knownImportsTpl quote) (one_file one_row)
         ((flags_of 0 1)\<lparr>var_flag := []\<rparr>) = (Some (Err (Errorf m)), []))
   \<and> run Parse_full String_full (knownImportsTpl quote) (one_file one_row)
         ((flags_of 0 1)\<lparr>protoCsvPath := ''missing.csv''\<rparr>)
       = (Some (Err (OSError ''no such file or directory'')), [EvOpen ''missing.csv''])
   \<and> run Parse_full String_full (knownImportsTpl quote) (one_file short_row) (flags_of 0 1)
       = (Some (Err (ParseError ErrFieldCount)),
          [EvOpen ''in.csv'', EvReadAll ''in.csv'', EvClose ''in.csv''])
   \<and> run Parse_full String_full (knownImportsTpl quote) (one_file seen_then_unparsed) (flags_of 0 1)
       = (Some (Err (Errorf ''label parse error: @r//p:'')),
          [EvOpen ''in.csv'', EvReadAll ''in.csv'', EvClose ''in.csv''])
   \<and> run Parse_full String_full (\<lambda>d. Inl (ExecError ''template'')) (one_file one_row) (flags_of 0 1)
       = (Some (Err (ExecError ''template'')),
          [EvOpen ''in.csv'', EvReadAll ''in.csv'', EvClose ''in.csv''])
   \<and> list_ex is_write
         (snd (run Parse_full String_full (knownImportsTpl quote) (one_file one_row) (flags_of 0 1)))"
proof -
  define X where "X = \<lparr>Repo = ''r'', Pkg = ''p'', Name = ''x''\<rparr>"
  have fs: "flags_set (flags_of 0 1)"
    by (simp add: flags_set_def flags_of_def)
  have op: "openResult (one_file bytes) (protoCsvPath (flags_of 0 1)) = Inr (bytes, EOF)" for bytes
    by (simp add: one_file_def flags_of_def)
  have ev: "input_events (flags_of 0 1) = [EvOpen ''in.csv'', EvReadAll ''in.csv'', EvClose ''in.csv'']"
    by (simp add: input_events_def flags_of_def)
  have kv: "keyColumn (flags_of 0 1) = 0" "valueColumn (flags_of 0 1) = 1"
    by (simp_all add: flags_of_def)

  have nfs: "\<not> flags_set ((flags_of 0 1)\<lparr>var_flag := []\<rparr>)"
    by (simp add: flags_set_def)
  from fail_fast_no_partial_output [of "(flags_of 0 1)\<lparr>var_flag := []\<rparr>" Parse_full String_full
      "knownImportsTpl quote" "one_file one_row", THEN conjunct1, rule_format, OF nfs]
  have 1: "\<exists>m. run Parse_full String_full (knownImportsTpl quote) (one_file one_row)
         ((flags_of 0 1)\<lparr>var_flag := []\<rparr>) = (Some (Err (Errorf m)), [])" .

  have fs2: "flags_set ((flags_of 0 1)\<lparr>protoCsvPath := ''missing.csv''\<rparr>)"
    by (simp add: flags_set_def flags_of_def)
  have op2: "openResult (one_file one_row) (protoCsvPath ((flags_of 0 1)\<lparr>protoCsvPath := ''missing.csv''\<rparr>))
      = Inl (OSError ''no such file or directory'')"
    by (simp add: one_file_def)
  from fail_fast_no_partial_output [of "(flags_of 0 1)\<lparr>protoCsvPath := ''missing.csv''\<rparr>"
      Parse_full String_full "knownImportsTpl quote" "one_file one_row",
      THEN conjunct2, THEN conjunct1, rule_format, OF fs2, THEN conjunct1, rule_format, OF op2]
  have 2: "run Parse_full String_full (knownImportsTpl quote) (one_file one_row)
         ((flags_of 0 1)\<lparr>protoCsvPath := ''missing.csv''\<rparr>)
       = (Some (Err (OSError ''no such file or directory'')), [EvOpen ''missing.csv''])"
    by simp

  have rd3: "ReadAll \<lparr>FieldsPerRecord = 4, rd = (short_row, EOF)\<rparr> = Inl (ParseError ErrFieldCount)"
    by code_simp
  from fail_fast_no_partial_output [of "flags_of 0 1" Parse_full String_full
      "knownImportsTpl quote" "one_file short_row",
      THEN conjunct2, THEN conjunct1, rule_format, OF fs, THEN conjunct2, rule_format,
      OF op [of short_row], THEN conjunct1, rule_format, OF rd3]
  have 3: "run Parse_full String_full (knownImportsTpl quote) (one_file short_row) (flags_of 0 1)
       = (Some (Err (ParseError ErrFieldCount)), input_events (flags_of 0 1))" .

  have rd4: "ReadAll \<lparr>FieldsPerRecord = 4, rd = (seen_then_unparsed, EOF)\<rparr>
       = Inr [[''a'', ''@r//p:x'', ''1'', ''2''], [''a'', ''@r//p:'', ''3'', ''4'']]"
    by code_simp
  have lp4: "loop Parse_full String_full (keyColumn (flags_of 0 1)) (valueColumn (flags_of 0 1))
       (Map.empty, []) [[''a'', ''@r//p:x'', ''1'', ''2''], [''a'', ''@r//p:'', ''3'', ''4'']]
       = Inl (Err (Errorf ''label parse error: @r//p:''))"
    unfolding kv by (simp add: loop_body_def index_def Parse_full_def)
  from fail_fast_no_partial_output [of "flags_of 0 1" Parse_full String_full
      "knownImportsTpl quote" "one_file seen_then_unparsed",
      THEN conjunct2, THEN conjunct1, rule_format, OF fs, THEN conjunct2, rule_format,
      OF op [of seen_then_unparsed], THEN conjunct2, rule_format, OF rd4, THEN conjunct1,
      rule_format, OF lp4]
  have 4: "run Parse_full String_full (knownImportsTpl quote) (one_file seen_then_unparsed) (flags_of 0 1)
       = (Some (Err (Errorf ''label parse error: @r//p:'')), input_events (flags_of 0 1))" .

  have rd5: "ReadAll \<lparr>FieldsPerRecord = 4, rd = (one_row, EOF)\<rparr> = Inr [[''a'', ''@r//p:x'', ''1'', ''2'']]"
    by code_simp
  have lp5: "loop Parse_full String_full (keyColumn (flags_of 0 1)) (valueColumn (flags_of 0 1))
       (Map.empty, []) [[''a'', ''@r//p:x'', ''1'', ''2'']]
       = Inr ([''a'' \<mapsto> X], [\<lparr>Import = ''a'', Label = X\<rparr>])"
    unfolding kv by (simp add: loop_body_def index_def Parse_full_def X_def)
  have ex5: "(\<lambda>d. Inl (ExecError ''template'')) (data_of (flags_of 0 1) [\<lparr>Import = ''a'', Label = X\<rparr>])
       = (Inl (ExecError ''template'') :: error + string)"
    by simp
  from fail_fast_no_partial_output [of "flags_of 0 1" Parse_full String_full
      "\<lambda>d. Inl (ExecError ''template'')" "one_file one_row",
      THEN conjunct2, THEN conjunct1, rule_format, OF fs, THEN conjunct2, rule_format,
      OF op [of one_row], THEN conjunct2, rule_format, OF rd5, THEN conjunct2, rule_format,
      OF lp5, THEN conjunct1, rule_format, OF ex5]
  have 5: "run Parse_full String_full (\<lambda>d. Inl (ExecError ''template'')) (one_file one_row) (flags_of 0 1)
       = (Some (Err (ExecError ''template'')), input_events (flags_of 0 1))" .

  obtain buf where ex6: "knownImportsTpl quote (data_of (flags_of 0 1) [\<lparr>Import = ''a'', Label = X\<rparr>]) = Inr buf"
    by (simp add: knownImportsTpl_def)
  have all_ok: "flags_set (flags_of 0 1) \<and>
        (\<exists>s records seen bindings buf.
           openResult (one_file one_row) (protoCsvPath (flags_of 0 1)) = Inr s \<and>
           ReadAll \<lparr>FieldsPerRecord = 4, rd = s\<rparr> = Inr records \<and>
           loop Parse_full String_full (keyColumn (flags_of 0 1)) (valueColumn (flags_of 0 1))
             (Map.empty, []) records = Inr (seen, bindings) \<and>
           knownImportsTpl quote (data_of (flags_of 0 1) bindings) = Inr buf)"
    using fs op [of one_row] rd5 lp5 ex6 by (intro conjI exI)
  from fail_fast_no_partial_output [of "flags_of 0 1" Parse_full String_full
      "knownImportsTpl quote" "one_file one_row", THEN conjunct2, THEN conjunct2, THEN iffD2, OF all_ok]
  have 6: "list_ex is_write
         (snd (run Parse_full String_full (knownImportsTpl quote) (one_file one_row) (flags_of 0 1)))" .
  from 1 2 3 4 5 6 show ?thesis
    unfolding ev by (intro conjI)
qed

section \<open>Determinism\<close>

text \<open>
  Claim C6. The pipeline is deterministic: the output depends on the flag values and on
  the contents of the input file only. Two runs with the same flags, label parser and
  template, in two file systems that give the same answer for the input path (the same
  bytes, or the same error), make the same events; in particular they write the same
  bytes to the same output path. If the two file systems also answer the write alike,
  the two runs return the same result. (Nothing else enters: the map \<open>seen\<close> is only looked
  up, never iterated, and the bindings are kept in a slice.)
\<close>

theorem same_input_same_output:
  assumes "openResult e1 (protoCsvPath fl) = openResult e2 (protoCsvPath fl)"
  shows "snd (run Parse String Execute e1 fl) = snd (run Parse String Execute e2 fl)
    \<and> written (snd (run Parse String Execute e1 fl)) = written (snd (run Parse String Execute e2 fl))
    \<and> (writeResult e1 (knownImportsPath fl) = writeResult e2 (knownImportsPath fl) \<longrightarrow>
         run Parse String Execute e1 fl = run Parse String Execute e2 fl)"
proof (cases "flags_set fl")
  case False
  then show ?thesis by (auto simp: run_def flags_set_def)
next
  case fs: True
  show ?thesis
  proof (cases "openResult e2 (protoCsvPath fl)")
    case (Inl err)
    with assms have "openResult e1 (protoCsvPath fl) = Inl err" by simp
    from run_open_fail [OF fs this] run_open_fail [OF fs Inl] show ?thesis by simp
  next
    case op2: (Inr s)
    with assms have op1: "openResult e1 (protoCsvPath fl) = Inr s" by simp
    show ?thesis
    proof (cases "ReadAll \<lparr>FieldsPerRecord = 4, rd = s\<rparr>")
      case (Inl err)
      from run_read_fail [OF fs op1 Inl] run_read_fail [OF fs op2 Inl] show ?thesis by simp
    next
      case rd: (Inr records)
      show ?thesis
      proof (cases "loop Parse String (keyColumn fl) (valueColumn fl) (Map.empty, []) records")
        case (Inl f)
        from run_loop_fail [OF fs op1 rd Inl] run_loop_fail [OF fs op2 rd Inl] show ?thesis
          by simp
      next
        case lp: (Inr st)
        obtain seen bindings where st: "st = (seen, bindings)" by (cases st)
        show ?thesis
        proof (cases "Execute (data_of fl bindings)")
          case (Inl err)
          from run_exec_fail [where Execute = Execute, OF fs op1 rd lp [unfolded st] Inl]
            run_exec_fail [where Execute = Execute, OF fs op2 rd lp [unfolded st] Inl]
          show ?thesis by simp
        next
          case ex: (Inr buf)
          from run_write [where Execute = Execute, OF fs op1 rd lp [unfolded st] ex]
            run_write [where Execute = Execute, OF fs op2 rd lp [unfolded st] ex]
          show ?thesis by simp
        qed
      qed
    qed
  qed
qed

theorem same_input_same_output_witness:
  "snd (run Parse_full String_full (knownImportsTpl quote) (one_file one_row) (flags_of 0 1))
     = snd (run Parse_full String_full (knownImportsTpl quote) (read_only one_row) (flags_of 0 1))
   \<and> written (snd (run Parse_full String_full (knownImportsTpl quote) (one_file one_row) (flags_of 0 1)))
     = written (snd (run Parse_full String_full (knownImportsTpl quote) (read_only one_row) (flags_of 0 1)))
   \<and> map fst (written (snd (run Parse_full String_full (knownImportsTpl quote) (one_file one_row) (flags_of 0 1))))
     = [''out.go'']
   \<and> fst (run Parse_full String_full (knownImportsTpl quote) (one_file one_row) (flags_of 0 1)) = None
   \<and> fst (run Parse_full String_full (knownImportsTpl quote) (read_only one_row) (flags_of 0 1))
     = Some (Err (OSError ''read-only file system''))"
proof -
  have op: "openResult (one_file one_row) (protoCsvPath (flags_of 0 1))
      = openResult (read_only one_row) (protoCsvPath (flags_of 0 1))"
    by (simp add: one_file_def read_only_def flags_of_def)
  have 3: "map fst (written (snd (run Parse_full String_full (knownImportsTpl quote) (one_file one_row) (flags_of 0 1))))
     = [''out.go'']"
    by code_simp
  have 4: "fst (run Parse_full String_full (knownImportsTpl quote) (one_file one_row) (flags_of 0 1)) = None"
    by code_simp
  have 5: "fst (run Parse_full String_full (knownImportsTpl quote) (read_only one_row) (flags_of 0 1))
     = Some (Err (OSError ''read-only file system''))"
    by code_simp
  from same_input_same_output [OF op, of Parse_full String_full "knownImportsTpl quote"] 3 4 5
  show ?thesis by simp
qed

section \<open>The 4-field rule\<close>

text \<open>The reader \<open>r\<close> with the field count set to 4.\<close>

lemma readRecord_with_check:
  assumes "FieldsPerRecord r < 0" and "readRecord r = ((dst, err), r')"
  shows "readRecord (r\<lparr>FieldsPerRecord := 4\<rparr>) =
           ((dst, if err = None \<and> length dst \<noteq> 4 then Some (ParseError ErrFieldCount) else err),
            r'\<lparr>FieldsPerRecord := 4\<rparr>)"
proof -
  obtain line errRead s where sk: "skipLines (rd r) = ((line, errRead), s)"
    by (metis prod.exhaust)
  show ?thesis
  proof (cases "errRead = Some EOF")
    case True
    with sk assms(2) show ?thesis by (auto simp: readRecord_def)
  next
    case False
    obtain d e1 e2 s' where pf: "parseField line errRead s [] = (d, e1, e2, s')"
      by (metis prod.exhaust)
    from sk False pf assms show ?thesis
      by (auto simp: readRecord_def Let_def)
  qed
qed

lemma readRecord_unchecked_reader:
  assumes "FieldsPerRecord r < 0"
  shows "FieldsPerRecord (snd (readRecord r)) < 0"
  using readRecord_FieldsPerRecord [of r] assms by simp

lemma ReadAll_loop_with_check:
  "FieldsPerRecord r < 0 \<Longrightarrow>
     \<exists>new. read_rows r acc = acc @ new \<and>
       ReadAll_loop (r\<lparr>FieldsPerRecord := 4\<rparr>) acc =
         (if \<forall>row \<in> set new. length row = 4 then ReadAll_loop r acc
          else Inl (ParseError ErrFieldCount))"
proof (induction r acc rule: ReadAll_loop.induct)
  case (1 r acc)
  obtain recd err r' where rr: "readRecord r = ((recd, err), r')"
    by (metis prod.exhaust)
  note rr4 = readRecord_with_check [OF "1.prems" rr]
  show ?case
  proof (cases err)
    case None
    from readRecord_unchecked_reader [OF "1.prems"] rr have neg: "FieldsPerRecord r' < 0"
      by simp
    from "1.IH" [OF rr [symmetric] refl None neg] obtain new where
      new: "read_rows r' (acc @ [recd]) = (acc @ [recd]) @ new"
      and chk: "ReadAll_loop (r'\<lparr>FieldsPerRecord := 4\<rparr>) (acc @ [recd]) =
         (if \<forall>row \<in> set new. length row = 4 then ReadAll_loop r' (acc @ [recd])
          else Inl (ParseError ErrFieldCount))"
      by blast
    show ?thesis
    proof (intro exI [of _ "recd # new"] conjI)
      from rr None new show "read_rows r acc = acc @ recd # new"
        by (simp add: read_rows.simps [of r acc])
      from rr rr4 None chk
      show "ReadAll_loop (r\<lparr>FieldsPerRecord := 4\<rparr>) acc =
          (if \<forall>row \<in> set (recd # new). length row = 4 then ReadAll_loop r acc
           else Inl (ParseError ErrFieldCount))"
        by (simp add: ReadAll_loop.simps [of "r\<lparr>FieldsPerRecord := 4\<rparr>" acc]
            ReadAll_loop.simps [of r acc])
    qed
  next
    case (Some e)
    show ?thesis
    proof (intro exI [of _ "[]"] conjI)
      from rr Some show "read_rows r acc = acc @ []"
        by (simp add: read_rows.simps [of r acc])
      from rr rr4 Some
      show "ReadAll_loop (r\<lparr>FieldsPerRecord := 4\<rparr>) acc =
          (if \<forall>row \<in> set []. length row = 4 then ReadAll_loop r acc
           else Inl (ParseError ErrFieldCount))"
        by (simp add: ReadAll_loop.simps [of "r\<lparr>FieldsPerRecord := 4\<rparr>" acc]
            ReadAll_loop.simps [of r acc])
    qed
  qed
qed

lemma ReadAll_with_check:
  "ReadAll \<lparr>FieldsPerRecord = 4, rd = s\<rparr> =
     (if \<forall>row \<in> set (read_rows \<lparr>FieldsPerRecord = - 1, rd = s\<rparr> []). length row = 4
      then ReadAll \<lparr>FieldsPerRecord = - 1, rd = s\<rparr>
      else Inl (ParseError ErrFieldCount))"
  using ReadAll_loop_with_check [of "\<lparr>FieldsPerRecord = - 1, rd = s\<rparr>" "[]"]
  by (auto simp: ReadAll_def)

lemma read_rows_ReadAll_loop:
  "ReadAll_loop r acc = Inr rows \<Longrightarrow> read_rows r acc = rows"
proof (induction r acc rule: ReadAll_loop.induct)
  case (1 r acc)
  obtain recd err r' where rr: "readRecord r = ((recd, err), r')"
    by (metis prod.exhaust)
  show ?case
  proof (cases err)
    case None
    with rr "1.prems" have "ReadAll_loop r' (acc @ [recd]) = Inr rows"
      by (simp add: ReadAll_loop.simps [of r acc])
    from "1.IH" [OF rr [symmetric] refl None this] rr None show ?thesis
      by (simp add: read_rows.simps [of r acc])
  next
    case (Some e)
    with rr "1.prems" show ?thesis
      by (simp add: ReadAll_loop.simps [of r acc] read_rows.simps [of r acc] split: if_splits)
  qed
qed

text \<open>
  Claim C4. The rows of an input are the records the reader returns with its field count
  check off (\<^verbatim>\<open>FieldsPerRecord\<close> negative), up to the end of the input or the first error;
  comment lines and empty lines are not among them. If one of these rows has a number of
  fields other than 4, reading the table with \<^verbatim>\<open>FieldsPerRecord = 4\<close> fails with the format
  error \<^verbatim>\<open>ErrFieldCount\<close>, and the run returns this error after closing the input, having
  written nothing, whatever the key and value columns are. (When the unchecked read
  returns all its rows without an error, they are the rows meant here.)
\<close>

theorem wrong_field_count_fails:
  assumes "flags_set fl"
    and "openResult e (protoCsvPath fl) = Inr s"
    and "row \<in> set (read_rows \<lparr>FieldsPerRecord = - 1, rd = s\<rparr> [])" and "length row \<noteq> 4"
  shows "ReadAll \<lparr>FieldsPerRecord = 4, rd = s\<rparr> = Inl (ParseError ErrFieldCount)
    \<and> (\<forall>k v. run Parse String Execute e (fl\<lparr>keyColumn := k, valueColumn := v\<rparr>) =
          (Some (Err (ParseError ErrFieldCount)), input_events fl))
    \<and> (\<forall>rows. ReadAll \<lparr>FieldsPerRecord = - 1, rd = s\<rparr> = Inr rows \<longrightarrow>
          read_rows \<lparr>FieldsPerRecord = - 1, rd = s\<rparr> [] = rows)"
proof -
  from assms(3,4)
  have rd: "ReadAll \<lparr>FieldsPerRecord = 4, rd = s\<rparr> = Inl (ParseError ErrFieldCount)"
    by (subst ReadAll_with_check) auto
  have "run Parse String Execute e (fl\<lparr>keyColumn := k, valueColumn := v\<rparr>) =
          (Some (Err (ParseError ErrFieldCount)), input_events fl)" for k v
  proof -
    from assms(1) have fs: "flags_set (fl\<lparr>keyColumn := k, valueColumn := v\<rparr>)"
      by (simp add: flags_set_def)
    from assms(2) have op: "openResult e (protoCsvPath (fl\<lparr>keyColumn := k, valueColumn := v\<rparr>)) = Inr s"
      by simp
    from run_read_fail [OF fs op rd] show ?thesis
      by (simp add: input_events_def)
  qed
  with rd show ?thesis
    by (simp add: ReadAll_def read_rows_ReadAll_loop)
qed

theorem wrong_field_count_fails_witness:
  "ReadAll \<lparr>FieldsPerRecord = - 1, rd = (five_fields, EOF)\<rparr>
     = Inr [[''a'', ''@r//p:x'', ''1'', ''2''], [''b'', ''@r//p:y'', ''3'', ''4'', ''5'']]
   \<and> ReadAll \<lparr>FieldsPerRecord = 4, rd = (five_fields, EOF)\<rparr> = Inl (ParseError ErrFieldCount)
   \<and> (\<forall>k v. run Parse_full String_full (knownImportsTpl quote) (one_file five_fields) (flags_of k v) =
          (Some (Err (ParseError ErrFieldCount)),
           [EvOpen ''in.csv'', EvReadAll ''in.csv'', EvClose ''in.csv'']))"
proof -
  have fs: "flags_set (flags_of 0 1)"
    by (simp add: flags_set_def flags_of_def)
  have op: "openResult (one_file five_fields) (protoCsvPath (flags_of 0 1)) = Inr (five_fields, EOF)"
    by (simp add: one_file_def flags_of_def)
  have rows: "ReadAll \<lparr>FieldsPerRecord = - 1, rd = (five_fields, EOF)\<rparr>
     = Inr [[''a'', ''@r//p:x'', ''1'', ''2''], [''b'', ''@r//p:y'', ''3'', ''4'', ''5'']]"
    by code_simp
  have mem: "[''b'', ''@r//p:y'', ''3'', ''4'', ''5'']
      \<in> set [[''a'', ''@r//p:x'', ''1'', ''2''], [''b'', ''@r//p:y'', ''3'', ''4'', ''5'']]"
    and len: "length [''b'', ''@r//p:y'', ''3'', ''4'', ''5''] \<noteq> 4"
    by simp_all
  have upd: "(flags_of 0 1)\<lparr>keyColumn := k, valueColumn := v\<rparr> = flags_of k v" for k v
    by (simp add: flags_of_def)
  have rr: "read_rows \<lparr>FieldsPerRecord = - 1, rd = (five_fields, EOF)\<rparr> []
     = [[''a'', ''@r//p:x'', ''1'', ''2''], [''b'', ''@r//p:y'', ''3'', ''4'', ''5'']]"
    by code_simp
  from wrong_field_count_fails [OF fs op mem [folded rr] len, of Parse_full String_full "knownImportsTpl quote"]
    rows
  show ?thesis
    by (simp add: upd input_events_def flags_of_def)
qed

section \<open>Comment lines\<close>

lemma ReadSlice_line:
  "NL \<notin> set l \<Longrightarrow> ReadSlice (l @ NL # rest, fin) = ((l @ [NL], None), (rest, fin))"
proof -
  assume a: "NL \<notin> set l"
  then have all: "\<And>x. x \<in> set l \<Longrightarrow> x \<noteq> NL" by blast
  then have "dropWhile (\<lambda>c. c \<noteq> NL) (l @ NL # rest) = NL # rest"
    by (simp add: dropWhile_append2)
  moreover from all have "takeWhile (\<lambda>c. c \<noteq> NL) (l @ NL # rest) = l"
    by (simp add: takeWhile_append2)
  ultimately show ?thesis by (simp add: ReadSlice_def)
qed

lemma normalizeCRLF_line: "normalizeCRLF (l @ [NL]) = line_read l"
proof (cases l rule: rev_cases)
  case Nil
  then show ?thesis by (simp add: normalizeCRLF_def line_read_def)
next
  case (snoc ys c)
  have "(ys @ [c, NL]) ! length ys = c" "(ys @ [c, NL]) ! Suc (length ys) = NL"
    by (simp_all add: nth_append)
  with snoc show ?thesis
    by (simp add: normalizeCRLF_def line_read_def Let_def)
qed

lemma readLine_line:
  assumes "NL \<notin> set l"
  shows "readLine (l @ NL # rest, fin) = ((line_read l, None), (rest, fin))"
  by (simp add: readLine_def ReadSlice_line [OF assms] Let_def normalizeCRLF_line)

lemma hd_line_read: "l \<noteq> [] \<Longrightarrow> l \<noteq> [CR] \<Longrightarrow> hd (line_read l) = hd l"
proof -
  assume a: "l \<noteq> []" "l \<noteq> [CR]"
  show ?thesis
  proof (cases "last l = CR")
    case True
    with a obtain c l' where "l = c # l'" "l' \<noteq> []"
      by (cases l) (auto split: if_splits)
    with True show ?thesis by (simp add: line_read_def)
  next
    case False
    with a show ?thesis by (simp add: line_read_def)
  qed
qed

lemma line_read_blank: "blank_line l \<Longrightarrow> line_read l = [NL]"
  by (auto simp: blank_line_def line_read_def)

lemma line_read_not_blank:
  "\<not> blank_line l \<Longrightarrow> length (line_read l) \<noteq> lengthNL (line_read l)"
proof -
  assume a: "\<not> blank_line l"
  have nl: "lengthNL (line_read l) = 1"
    by (simp add: lengthNL_def line_read_def)
  from a have "length (line_read l) \<ge> 2"
    by (cases l rule: rev_cases) (auto simp: blank_line_def line_read_def Suc_le_eq)
  with nl show ?thesis by simp
qed

lemma skipLines_comment:
  assumes "NL \<notin> set l" and "comment_line l"
  shows "skipLines (l @ NL # rest, fin) = skipLines (rest, fin)"
proof -
  from assms(2) have "l \<noteq> []" "l \<noteq> [CR]" "hd l = HASH"
    by (auto simp: comment_line_def HASH_def CR_def)
  then have "hd (line_read l) = HASH" "line_read l \<noteq> []"
    by (simp_all add: hd_line_read) (simp add: line_read_def)
  with readLine_line [OF assms(1)] show ?thesis
    by (simp add: skipLines.simps [of "(l @ NL # rest, fin)"])
qed

lemma skipLines_blank:
  assumes "blank_line l"
  shows "skipLines (l @ NL # rest, fin) = skipLines (rest, fin)"
proof -
  from assms have nl: "NL \<notin> set l"
    by (auto simp: blank_line_def NL_def CR_def)
  have "hd [NL] \<noteq> HASH" "length [NL] = lengthNL [NL]"
    by (simp_all add: NL_def HASH_def lengthNL_def)
  with readLine_line [OF nl] line_read_blank [OF assms] show ?thesis
    by (simp add: skipLines.simps [of "(l @ NL # rest, fin)"])
qed

lemma skipLines_data:
  assumes "NL \<notin> set l" and "\<not> comment_line l" and "\<not> blank_line l"
  shows "skipLines (l @ NL # rest, fin) = ((line_read l, None), (rest, fin))"
proof -
  from assms(2,3) have "l \<noteq> []" "l \<noteq> [CR]" "hd l \<noteq> HASH"
    by (auto simp: comment_line_def blank_line_def)
  then have "hd (line_read l) \<noteq> HASH"
    by (simp add: hd_line_read)
  with readLine_line [OF assms(1)] line_read_not_blank [OF assms(3)] show ?thesis
    by (simp add: skipLines.simps [of "(l @ NL # rest, fin)"])
qed

lemma readRecord_literal:
  "readRecord \<lparr>FieldsPerRecord = n, rd = src\<rparr> =
     (case skipLines src of
        ((line, errRead), s) \<Rightarrow>
          if errRead = Some EOF then (([], Some EOF), \<lparr>FieldsPerRecord = n, rd = s\<rparr>)
          else (case parseField line errRead s [] of
                  (dst, err, errRead', s') \<Rightarrow>
                    ((dst,
                      if n > 0 \<and> int (length dst) \<noteq> n \<and> err = None \<and> errRead' = None
                      then Some (ParseError ErrFieldCount)
                      else if err = None then errRead' else err),
                     \<lparr>FieldsPerRecord = (if n = 0 then int (length dst) else n), rd = s'\<rparr>)))"
proof -
  obtain line errRead s where sk: "skipLines src = ((line, errRead), s)"
    by (metis prod.exhaust)
  obtain dst err er' s' where pf: "parseField line errRead s [] = (dst, err, er', s')"
    by (metis prod.exhaust)
  show ?thesis
    by (cases "errRead = Some EOF") (auto simp: readRecord_def sk pf Let_def)
qed

lemma readRecord_skip:
  "skipLines (b1, fin) = skipLines (b2, fin) \<Longrightarrow>
     readRecord \<lparr>FieldsPerRecord = n, rd = (b1, fin)\<rparr> = readRecord \<lparr>FieldsPerRecord = n, rd = (b2, fin)\<rparr>"
  by (simp add: readRecord_literal)

lemma ReadAll_loop_skip:
  assumes "skipLines (b1, fin) = skipLines (b2, fin)"
  shows "ReadAll_loop \<lparr>FieldsPerRecord = n, rd = (b1, fin)\<rparr> acc =
     ReadAll_loop \<lparr>FieldsPerRecord = n, rd = (b2, fin)\<rparr> acc"
proof -
  note rr = readRecord_skip [OF assms, of n]
  show ?thesis
    by (simp only: ReadAll_loop.simps [of "\<lparr>FieldsPerRecord = n, rd = (b1, fin)\<rparr>" acc]
        ReadAll_loop.simps [of "\<lparr>FieldsPerRecord = n, rd = (b2, fin)\<rparr>" acc] rr)
qed

lemma join_lines_Cons: "join_lines (l # ls) @ rest = l @ NL # (join_lines ls @ rest)"
  by (simp add: join_lines_def)

lemma run_same_records:
  assumes "flags_set fl"
    and "openResult e1 (protoCsvPath fl) = Inr s1"
    and "openResult e2 (protoCsvPath fl) = Inr s2"
    and "ReadAll \<lparr>FieldsPerRecord = 4, rd = s1\<rparr> = ReadAll \<lparr>FieldsPerRecord = 4, rd = s2\<rparr>"
    and "writeResult e1 (knownImportsPath fl) = writeResult e2 (knownImportsPath fl)"
  shows "run Parse String Execute e1 fl = run Parse String Execute e2 fl"
proof (cases "ReadAll \<lparr>FieldsPerRecord = 4, rd = s2\<rparr>")
  case (Inl err)
  with assms(4) have "ReadAll \<lparr>FieldsPerRecord = 4, rd = s1\<rparr> = Inl err" by simp
  from run_read_fail [OF assms(1,2) this] run_read_fail [OF assms(1,3) Inl] show ?thesis
    by simp
next
  case rd2: (Inr records)
  with assms(4) have rd1: "ReadAll \<lparr>FieldsPerRecord = 4, rd = s1\<rparr> = Inr records" by simp
  show ?thesis
  proof (cases "loop Parse String (keyColumn fl) (valueColumn fl) (Map.empty, []) records")
    case (Inl f)
    from run_loop_fail [OF assms(1,2) rd1 Inl] run_loop_fail [OF assms(1,3) rd2 Inl]
    show ?thesis by simp
  next
    case lp: (Inr st)
    obtain seen bindings where st: "st = (seen, bindings)" by (cases st)
    show ?thesis
    proof (cases "Execute (data_of fl bindings)")
      case (Inl err)
      from run_exec_fail [where Execute = Execute, OF assms(1,2) rd1 lp [unfolded st] Inl]
        run_exec_fail [where Execute = Execute, OF assms(1,3) rd2 lp [unfolded st] Inl]
      show ?thesis by simp
    next
      case ex: (Inr buf)
      from run_write [where Execute = Execute, OF assms(1,2) rd1 lp [unfolded st] ex]
        run_write [where Execute = Execute, OF assms(1,3) rd2 lp [unfolded st] ex] assms(5)
      show ?thesis by simp
    qed
  qed
qed

text \<open>The parser on the input reads what \<open>fields_on_lines\<close> reads on the lines.\<close>

lemma parse_on_lines:
  "\<forall>l \<in> set after. NL \<notin> set l \<Longrightarrow> fields_on_lines line after dst = Some ((d, err), left) \<Longrightarrow>
     parseField line None (join_lines after @ rest, fin) dst =
       (d, err, None, (join_lines left @ rest, fin))"
  "\<forall>l \<in> set after. NL \<notin> set l \<Longrightarrow> quoted_on_lines line after dst cur = Some ((d, err), left) \<Longrightarrow>
     quotedField line None (join_lines after @ rest, fin) dst cur =
       (d, err, None, (join_lines left @ rest, fin))"
proof (induction line after dst and line after dst cur rule: fields_on_lines_quoted_on_lines.induct)
  case (1 line after dst)
  let ?field = "if COMMA \<in> set line then takeWhile (\<lambda>c. c \<noteq> COMMA) line
                else take (length line - lengthNL line) line"
  let ?s = "(join_lines after @ rest, fin)"
  show ?case
  proof (cases "line = [] \<or> hd line \<noteq> DQ")
    case plain: True
    show ?thesis
    proof (cases "DQ \<in> set ?field")
      case True
      with plain have E: "fields_on_lines line after dst =
          Some ((dst, Some (ParseError ErrBareQuote)), after)"
        by (subst fields_on_lines.simps) (auto simp add: Let_def)
      from plain True have P: "parseField line None ?s dst =
          (dst, Some (ParseError ErrBareQuote), None, ?s)"
        by (subst parseField.simps) (auto simp add: Let_def)
      from "1.prems"(2) E have "d = dst" "err = Some (ParseError ErrBareQuote)" "left = after"
        by simp_all
      with P show ?thesis by simp
    next
      case nq: False
      show ?thesis
      proof (cases "COMMA \<in> set line")
        case True
        with plain nq have E: "fields_on_lines line after dst =
            fields_on_lines (tl (dropWhile (\<lambda>c. c \<noteq> COMMA) line)) after (dst @ [?field])"
          by (subst fields_on_lines.simps) (auto simp add: Let_def)
        from plain nq True have P: "parseField line None ?s dst =
            parseField (tl (dropWhile (\<lambda>c. c \<noteq> COMMA) line)) None ?s (dst @ [?field])"
          by (subst parseField.simps) (auto simp add: Let_def)
        from "1.prems"(2) have "fields_on_lines (tl (dropWhile (\<lambda>c. c \<noteq> COMMA) line)) after
            (dst @ [?field]) = Some ((d, err), left)"
          unfolding E .
        from "1.IH"(1) [OF plain refl nq True "1.prems"(1) this] show ?thesis
          unfolding P .
      next
        case False
        with plain nq have E: "fields_on_lines line after dst = Some ((dst @ [?field], None), after)"
          by (subst fields_on_lines.simps) (auto simp add: Let_def)
        from plain nq False have P: "parseField line None ?s dst = (dst @ [?field], None, None, ?s)"
          by (subst parseField.simps) (auto simp add: Let_def)
        from "1.prems"(2) E have "d = dst @ [?field]" "err = None" "left = after"
          by simp_all
        with P show ?thesis by simp
      qed
    qed
  next
    case quoted: False
    then have E: "fields_on_lines line after dst = quoted_on_lines (tl line) after dst []"
      by (subst fields_on_lines.simps) (auto simp add: Let_def)
    from quoted have P: "parseField line None ?s dst = quotedField (tl line) None ?s dst []"
      by (subst parseField.simps) (auto simp add: Let_def)
    from "1.prems"(2) have "quoted_on_lines (tl line) after dst [] = Some ((d, err), left)"
      unfolding E .
    from "1.IH"(2) [OF quoted "1.prems"(1) this] show ?thesis
      unfolding P .
  qed
next
  case (2 line after dst cur)
  let ?cur = "cur @ takeWhile (\<lambda>c. c \<noteq> DQ) line"
  let ?line = "tl (dropWhile (\<lambda>c. c \<noteq> DQ) line)"
  let ?s = "(join_lines after @ rest, fin)"
  show ?case
  proof (cases "DQ \<in> set line")
    case dq: True
    show ?thesis
    proof (cases "?line \<noteq> [] \<and> hd ?line = DQ")
      case True
      with dq have E: "quoted_on_lines line after dst cur =
          quoted_on_lines (tl ?line) after dst (?cur @ [DQ])"
        by (subst quoted_on_lines.simps) (auto simp add: Let_def)
      from dq True have P: "quotedField line None ?s dst cur =
          quotedField (tl ?line) None ?s dst (?cur @ [DQ])"
        by (subst quotedField.simps) (auto simp add: Let_def)
      from "2.prems"(2) have "quoted_on_lines (tl ?line) after dst (?cur @ [DQ]) = Some ((d, err), left)"
        unfolding E .
      from "2.IH"(1) [OF dq refl refl True "2.prems"(1) this] show ?thesis
        unfolding P .
    next
      case nodq: False
      show ?thesis
      proof (cases "?line \<noteq> [] \<and> hd ?line = COMMA")
        case True
        with dq nodq have E: "quoted_on_lines line after dst cur =
            fields_on_lines (tl ?line) after (dst @ [?cur])"
          by (subst quoted_on_lines.simps) (auto simp add: Let_def)
        from dq nodq True have P: "quotedField line None ?s dst cur =
            parseField (tl ?line) None ?s (dst @ [?cur])"
          by (subst quotedField.simps) (auto simp add: Let_def)
        from "2.prems"(2) have "fields_on_lines (tl ?line) after (dst @ [?cur]) = Some ((d, err), left)"
          unfolding E .
        from "2.IH"(2) [OF dq refl refl nodq True "2.prems"(1) this] show ?thesis
          unfolding P .
      next
        case nocomma: False
        with dq nodq have E: "quoted_on_lines line after dst cur =
            Some ((if lengthNL ?line = length ?line then (dst @ [?cur], None)
                   else (dst, Some (ParseError ErrQuote))), after)"
          by (subst quoted_on_lines.simps) (auto simp add: Let_def)
        from dq nodq nocomma have P: "quotedField line None ?s dst cur =
            (if lengthNL ?line = length ?line then (dst @ [?cur], None, None, ?s)
             else (dst, Some (ParseError ErrQuote), None, ?s))"
          by (subst quotedField.simps) (auto simp add: Let_def)
        from "2.prems"(2) E
        have "(d, err) = (if lengthNL ?line = length ?line then (dst @ [?cur], None)
                   else (dst, Some (ParseError ErrQuote)))" "left = after"
          by simp_all
        with P show ?thesis by (simp split: if_splits)
      qed
    qed
  next
    case nq: False
    then have E: "quoted_on_lines line after dst cur =
        (if line \<noteq> [] then
           (case after of [] \<Rightarrow> None
            | l # a' \<Rightarrow> quoted_on_lines (line_read l) a' dst (cur @ line))
         else None)"
      by (subst quoted_on_lines.simps) simp
    from "2.prems"(2) E obtain l after' where ne: "line \<noteq> []" and after: "after = l # after'"
      and nxt: "quoted_on_lines (line_read l) after' dst (cur @ line) = Some ((d, err), left)"
      by (auto split: if_splits list.splits)
    from "2.prems"(1) after have nl: "NL \<notin> set l" and nls: "\<forall>l \<in> set after'. NL \<notin> set l"
      by auto
    have rl: "readLine ?s = ((line_read l, None), (join_lines after' @ rest, fin))"
      unfolding after join_lines_Cons by (rule readLine_line [OF nl])
    from nq ne rl have P: "quotedField line None ?s dst cur =
        quotedField (line_read l) None (join_lines after' @ rest, fin) dst (cur @ line)"
      by (subst quotedField.simps) simp
    from "2.IH"(3) [OF nq ne after nls nxt] show ?thesis
      unfolding P .
  qed
qed

text \<open>One step of the reader on a record that ends within the lines \<open>l # ls\<close>.\<close>

lemma readRecord_on_lines:
  assumes "NL \<notin> set l" and "\<forall>l \<in> set ls. NL \<notin> set l"
    and "\<not> comment_line l" and "\<not> blank_line l"
    and "fields_on_lines (line_read l) ls [] = Some ((d, err), [])"
  shows "readRecord \<lparr>FieldsPerRecord = n, rd = (join_lines (l # ls) @ rest, fin)\<rparr> =
     ((d, if n > 0 \<and> int (length d) \<noteq> n \<and> err = None
          then Some (ParseError ErrFieldCount) else err),
      \<lparr>FieldsPerRecord = (if n = 0 then int (length d) else n), rd = (rest, fin)\<rparr>)"
proof -
  from parse_on_lines(1) [OF assms(2,5), of rest fin]
  have "parseField (line_read l) None (join_lines ls @ rest, fin) [] = (d, err, None, (rest, fin))"
    by (simp add: join_lines_def)
  then show ?thesis
    unfolding join_lines_Cons
    by (simp add: readRecord_literal skipLines_data [OF assms(1,3,4)])
qed

lemma ReadAll_loop_on_lines:
  assumes "NL \<notin> set l" and "\<forall>l \<in> set ls. NL \<notin> set l"
    and "\<not> comment_line l" and "\<not> blank_line l"
    and "fields_on_lines (line_read l) ls [] = Some ((d, err), [])"
  shows "ReadAll_loop \<lparr>FieldsPerRecord = n, rd = (join_lines (l # ls) @ rest, fin)\<rparr> acc =
     (if n > 0 \<and> int (length d) \<noteq> n \<and> err = None then Inl (ParseError ErrFieldCount)
      else case err of
             Some e \<Rightarrow> if e = EOF then Inr acc else Inl e
           | None \<Rightarrow> ReadAll_loop \<lparr>FieldsPerRecord = (if n = 0 then int (length d) else n),
                        rd = (rest, fin)\<rparr> (acc @ [d]))"
  by (subst ReadAll_loop.simps) (simp add: readRecord_on_lines [OF assms])

text \<open>A comment line at the very end of the input, without a newline.\<close>

lemma normalizeCRLF_no_newline: "NL \<notin> set x \<Longrightarrow> normalizeCRLF x = x"
proof -
  assume nl: "NL \<notin> set x"
  have "x ! (length x - 1) \<noteq> NL" if "length x \<ge> 2"
  proof -
    from that have "length x - 1 < length x" by simp
    then have "x ! (length x - 1) \<in> set x" by (rule nth_mem)
    with nl show ?thesis by metis
  qed
  then show ?thesis by (auto simp: normalizeCRLF_def Let_def)
qed

lemma skipLines_last_comment:
  assumes "NL \<notin> set l" and "comment_line l"
  shows "skipLines (l, fin) = skipLines ([], fin)"
proof -
  from assms(1) have "\<And>x. x \<in> set l \<Longrightarrow> x \<noteq> NL" by blast
  then have dw: "dropWhile (\<lambda>c. c \<noteq> NL) l = []" by simp
  from assms(2) have ne: "l \<noteq> []" and hd: "hd l = HASH"
    by (simp_all add: comment_line_def)
  have rs: "ReadSlice (l, f) = ((l, Some f), ([], f))" for f
    by (simp add: ReadSlice_def dw)
  have rl0: "readLine ([], f) = (([], Some f), ([], f))" for f
    by (simp add: readLine_def ReadSlice_def Let_def normalizeCRLF_def)
  have end0: "skipLines ([], f) = (([], Some f), ([], f))" for f
    by (simp add: skipLines.simps [of "([], f)"] rl0)
  show ?thesis
  proof (cases "fin = EOF")
    case True
    let ?l1 = "if last l = CR then butlast l else l"
    have l1: "?l1 \<noteq> [] \<and> hd ?l1 = HASH \<and> NL \<notin> set ?l1"
    proof (cases "last l = CR")
      case cr: True
      with ne hd obtain c l' where "l = c # l'" "l' \<noteq> []"
        by (cases l) (auto simp: HASH_def CR_def split: if_splits)
      with hd assms(1) cr show ?thesis by (auto dest: in_set_butlastD)
    next
      case False
      with ne hd assms(1) show ?thesis by simp
    qed
    then have "normalizeCRLF ?l1 = ?l1" by (intro normalizeCRLF_no_newline) simp
    with ne have rl: "readLine (l, EOF) = ((?l1, None), ([], EOF))"
      by (simp add: readLine_def rs Let_def)
    from l1 have "skipLines (l, EOF) = skipLines ([], EOF)"
      by (subst skipLines.simps) (simp add: rl)
    with True show ?thesis by simp
  next
    case False
    from assms(1) have "normalizeCRLF l = l" by (rule normalizeCRLF_no_newline)
    with False have rl: "readLine (l, fin) = ((l, Some fin), ([], fin))"
      by (simp add: readLine_def rs Let_def)
    from ne hd have "skipLines (l, fin) = (([], Some fin), ([], fin))"
      by (subst skipLines.simps) (simp add: rl)
    with end0 show ?thesis by simp
  qed
qed

text \<open>The lines of an input, put together again, are the input.\<close>

lemma split_lines_join:
  "split_lines b = (ls, r) \<Longrightarrow>
     b = join_lines ls @ r \<and> NL \<notin> set r \<and> (\<forall>l \<in> set ls. NL \<notin> set l)"
proof (induction b arbitrary: ls r)
  case Nil
  then show ?case by (simp add: join_lines_def)
next
  case (Cons c b)
  obtain ls' r' where sp: "split_lines b = (ls', r')" by (cases "split_lines b")
  from Cons.IH [OF sp] have b: "b = join_lines ls' @ r'" and r': "NL \<notin> set r'"
    and ls': "\<forall>l \<in> set ls'. NL \<notin> set l"
    by simp_all
  show ?case
  proof (cases "c = NL")
    case True
    with Cons.prems sp have "ls = [] # ls'" "r = r'" by simp_all
    with True b r' ls' show ?thesis by (simp add: join_lines_def)
  next
    case c: False
    show ?thesis
    proof (cases ls')
      case Nil
      with c Cons.prems sp have "ls = []" "r = c # r'" by simp_all
      with Nil c b r' show ?thesis by (simp add: join_lines_def)
    next
      case (Cons l ls'')
      with c Cons.prems sp have "ls = (c # l) # ls''" "r = r'" by simp_all
      with Cons c b r' ls' show ?thesis by (simp add: join_lines_def)
    qed
  qed
qed

lemma split_lines_line:
  "NL \<notin> set l \<Longrightarrow>
     split_lines (l @ NL # b) = (l # fst (split_lines b), snd (split_lines b))"
  by (induction l) (auto split: prod.splits)

lemma split_lines_lines:
  "\<forall>l \<in> set ls. NL \<notin> set l \<Longrightarrow>
     split_lines (join_lines ls @ b) = (ls @ fst (split_lines b), snd (split_lines b))"
proof (induction ls)
  case Nil
  show ?case by (simp add: join_lines_def)
next
  case (Cons l ls)
  then show ?case
    unfolding join_lines_Cons by (simp add: split_lines_line)
qed

text \<open>The reader on the lines and on the lines without the comment lines.\<close>

lemma ReadAll_loop_without_comment_lines:
  "\<forall>l \<in> set ls. NL \<notin> set l \<Longrightarrow> NL \<notin> set r \<Longrightarrow>
     ReadAll_loop \<lparr>FieldsPerRecord = n, rd = (join_lines ls @ r, fin)\<rparr> acc =
     ReadAll_loop \<lparr>FieldsPerRecord = n, rd = (without_comment_lines ls r, fin)\<rparr> acc"
proof (induction ls r arbitrary: n acc rule: without_comment_lines.induct)
  case (1 r)
  show ?case
  proof (cases "comment_line r")
    case True
    have "ReadAll_loop \<lparr>FieldsPerRecord = n, rd = (r, fin)\<rparr> acc =
          ReadAll_loop \<lparr>FieldsPerRecord = n, rd = ([], fin)\<rparr> acc"
      by (rule ReadAll_loop_skip) (rule skipLines_last_comment [OF "1.prems"(2) True])
    with True show ?thesis
      by (simp add: without_comment_lines.simps join_lines_def)
  next
    case False
    then show ?thesis
      by (simp add: without_comment_lines.simps join_lines_def)
  qed
next
  case (2 l ls r)
  from "2.prems"(1) have nl: "NL \<notin> set l" and nls: "\<forall>l \<in> set ls. NL \<notin> set l"
    by simp_all
  have input: "join_lines (l # ls) @ r = l @ NL # (join_lines ls @ r)"
    by (rule join_lines_Cons)
  show ?case
  proof (cases "comment_line l")
    case True
    then have W: "without_comment_lines (l # ls) r = without_comment_lines ls r"
      by (simp add: without_comment_lines.simps)
    have "ReadAll_loop \<lparr>FieldsPerRecord = n, rd = (join_lines (l # ls) @ r, fin)\<rparr> acc =
          ReadAll_loop \<lparr>FieldsPerRecord = n, rd = (join_lines ls @ r, fin)\<rparr> acc"
      unfolding input by (rule ReadAll_loop_skip) (rule skipLines_comment [OF nl True])
    with "2.IH"(1) [OF True nls "2.prems"(2), of n acc] show ?thesis
      unfolding W by simp
  next
    case nc: False
    show ?thesis
    proof (cases "blank_line l")
      case True
      with nc have W: "without_comment_lines (l # ls) r = l @ NL # without_comment_lines ls r"
        by (simp add: without_comment_lines.simps)
      have "ReadAll_loop \<lparr>FieldsPerRecord = n, rd = (join_lines (l # ls) @ r, fin)\<rparr> acc =
            ReadAll_loop \<lparr>FieldsPerRecord = n, rd = (join_lines ls @ r, fin)\<rparr> acc"
        unfolding input by (rule ReadAll_loop_skip) (rule skipLines_blank [OF True])
      moreover
      have "ReadAll_loop \<lparr>FieldsPerRecord = n, rd = (l @ NL # without_comment_lines ls r, fin)\<rparr> acc =
            ReadAll_loop \<lparr>FieldsPerRecord = n, rd = (without_comment_lines ls r, fin)\<rparr> acc"
        by (rule ReadAll_loop_skip) (rule skipLines_blank [OF True])
      ultimately show ?thesis
        using "2.IH"(2) [OF nc True nls "2.prems"(2), of n acc] unfolding W by simp
    next
      case nb: False
      show ?thesis
      proof (cases "fields_on_lines (line_read l) ls []")
        case None
        with nc nb have W: "without_comment_lines (l # ls) r = join_lines (l # ls) @ r"
          by (simp add: without_comment_lines.simps)
        show ?thesis unfolding W ..
      next
        case (Some x)
        obtain d err left where x: "x = ((d, err), left)" by (metis prod.exhaust)
        from on_lines_prefix(1) [OF Some [unfolded x]] obtain pre where pre: "ls = pre @ left"
          and all: "\<And>y. fields_on_lines (line_read l) (pre @ y) [] = Some ((d, err), y)"
          by blast
        from pre have tk: "take (length ls - length left) ls = pre" by simp
        from nc nb Some x tk
        have W: "without_comment_lines (l # ls) r =
            join_lines (l # pre) @ without_comment_lines left r"
          by (simp add: without_comment_lines.simps)
        have I: "join_lines (l # ls) @ r = join_lines (l # pre) @ (join_lines left @ r)"
          by (simp add: pre join_lines_def)
        from nls pre have npre: "\<forall>l \<in> set pre. NL \<notin> set l" and nleft: "\<forall>l \<in> set left. NL \<notin> set l"
          by simp_all
        from all [of "[]"] have f: "fields_on_lines (line_read l) pre [] = Some ((d, err), [])"
          by simp
        note step = ReadAll_loop_on_lines [OF nl npre nc nb f]
        let ?n = "if n = 0 then int (length d) else n"
        from "2.IH"(3) [OF nc nb Some x [symmetric] nleft "2.prems"(2), of ?n "acc @ [d]"]
        show ?thesis
          unfolding W I step by (simp only:)
      qed
    qed
  qed
qed

lemma ReadAll_without_comments:
  "ReadAll \<lparr>FieldsPerRecord = n, rd = (b, fin)\<rparr> =
   ReadAll \<lparr>FieldsPerRecord = n, rd = (without_comments b, fin)\<rparr>"
proof -
  obtain ls r where sp: "split_lines b = (ls, r)" by (cases "split_lines b")
  from split_lines_join [OF sp] have b: "b = join_lines ls @ r" and r: "NL \<notin> set r"
    and ls: "\<forall>l \<in> set ls. NL \<notin> set l"
    by simp_all
  from ReadAll_loop_without_comment_lines [OF ls r, of n fin "[]"] show ?thesis
    by (simp add: ReadAll_def without_comments_def sp b [symmetric])
qed

text \<open>What \<open>without_comments\<close> leaves out and what it keeps.\<close>

lemma without_comments_comment:
  "NL \<notin> set l \<Longrightarrow> comment_line l \<Longrightarrow> without_comments (l @ NL # b) = without_comments b"
  by (simp add: without_comments_def split_lines_line without_comment_lines.simps
      split: prod.splits)

lemma without_comments_record:
  assumes "NL \<notin> set l" and "\<forall>x \<in> set ls. NL \<notin> set x"
    and "\<not> comment_line l" and "\<not> blank_line l"
    and "fields_on_lines (line_read l) ls [] = Some (res, [])"
  shows "without_comments (join_lines (l # ls) @ b) = join_lines (l # ls) @ without_comments b"
proof -
  obtain ls' r where sp: "split_lines b = (ls', r)" by (cases "split_lines b")
  from assms(1,2) have "\<forall>x \<in> set (l # ls). NL \<notin> set x" by simp
  from split_lines_lines [OF this, of b] sp
  have sp': "split_lines (join_lines (l # ls) @ b) = (l # ls @ ls', r)"
    by simp
  from on_lines_prefix(1) [OF assms(5)]
  have f: "fields_on_lines (line_read l) (ls @ ls') [] = Some (res, ls')"
    by simp
  from assms(3,4) f
  have "without_comment_lines (l # ls @ ls') r = join_lines (l # ls) @ without_comment_lines ls' r"
    by (simp add: without_comment_lines.simps)
  then show ?thesis
    by (simp add: without_comments_def sp sp')
qed

lemma without_comments_last_comment:
  "NL \<notin> set l \<Longrightarrow> comment_line l \<Longrightarrow> without_comments l = []"
proof -
  assume nl: "NL \<notin> set l" and c: "comment_line l"
  from nl have "split_lines l = ([], l)"
    by (induction l) auto
  with c show ?thesis
    by (simp add: without_comments_def without_comment_lines.simps)
qed

text \<open>
  Claim C5 says that a line whose first non-blank character is \<^verbatim>\<open>#\<close> is a comment, left
  out of the rows and exempt from the 4-field rule. The reader compares the first byte of
  the line with \<^verbatim>\<open>#\<close>: in the input below the first line has a blank before \<^verbatim>\<open>#\<close>, so it
  is read as a row of one field, and the read fails on the field count. Without that line
  the same input is read.
\<close>

theorem comment_lines_counterexample:
  "read_rows \<lparr>FieldsPerRecord = - 1, rd = (indented_comment, EOF)\<rparr> []
     = [['' # note''], [''a'', ''@r//p:x'', ''1'', ''2'']]
   \<and> ReadAll \<lparr>FieldsPerRecord = 4, rd = (indented_comment, EOF)\<rparr> = Inl (ParseError ErrFieldCount)
   \<and> run Parse_full String_full (knownImportsTpl quote) (one_file indented_comment) (flags_of 0 1)
     = (Some (Err (ParseError ErrFieldCount)),
        [EvOpen ''in.csv'', EvReadAll ''in.csv'', EvClose ''in.csv''])
   \<and> ReadAll \<lparr>FieldsPerRecord = 4, rd = (''a,@r//p:x,1,2'' @ [NL], EOF)\<rparr>
     = Inr [[''a'', ''@r//p:x'', ''1'', ''2'']]"
proof (intro conjI)
  show "read_rows \<lparr>FieldsPerRecord = - 1, rd = (indented_comment, EOF)\<rparr> []
     = [['' # note''], [''a'', ''@r//p:x'', ''1'', ''2'']]"
    by code_simp
  show "ReadAll \<lparr>FieldsPerRecord = 4, rd = (indented_comment, EOF)\<rparr> = Inl (ParseError ErrFieldCount)"
    by code_simp
  show "run Parse_full String_full (knownImportsTpl quote) (one_file indented_comment) (flags_of 0 1)
     = (Some (Err (ParseError ErrFieldCount)),
        [EvOpen ''in.csv'', EvReadAll ''in.csv'', EvClose ''in.csv''])"
    by code_simp
  show "ReadAll \<lparr>FieldsPerRecord = 4, rd = (''a,@r//p:x,1,2'' @ [NL], EOF)\<rparr>
     = Inr [[''a'', ''@r//p:x'', ''1'', ''2'']]"
    by code_simp
qed

text \<open>
  Claim C5, amended. A line whose first byte is \<^verbatim>\<open>#\<close> (nothing before it, not even a
  blank) is a comment, unless it is inside a quoted field that began on an earlier line:
  the reader skips it wherever it looks for the start of a record, also between data rows,
  and never counts its fields. So every input \<open>b\<close> is read as \<open>without_comments b\<close>, the input
  without these lines: the read returns the same rows or the same kind of error, for every
  setting of the field count, and the run returns the same result and makes the same
  events. \<open>without_comments\<close> leaves out a line that starts with \<^verbatim>\<open>#\<close> where a record may
  start (at the start of the input, and so after every line or record that it has gone
  through), also as the last line without a newline, and keeps the lines of a record, with
  the lines on which a quoted field of it goes on. (The line and column numbers of a
  \<^verbatim>\<open>*csv.ParseError\<close> are not modelled; they do count the comment lines.)
\<close>

theorem comment_lines_are_skipped:
  "(\<forall>n. ReadAll \<lparr>FieldsPerRecord = n, rd = (b, fin)\<rparr> =
          ReadAll \<lparr>FieldsPerRecord = n, rd = (without_comments b, fin)\<rparr>)
    \<and> (\<forall>e1 e2.
          flags_set fl \<and>
          openResult e1 (protoCsvPath fl) = Inr (b, fin) \<and>
          openResult e2 (protoCsvPath fl) = Inr (without_comments b, fin) \<and>
          writeResult e1 (knownImportsPath fl) = writeResult e2 (knownImportsPath fl) \<longrightarrow>
          run Parse String Execute e1 fl = run Parse String Execute e2 fl)
    \<and> (NL \<notin> set l \<and> comment_line l \<longrightarrow>
          without_comments (l @ NL # b) = without_comments b \<and> without_comments l = [])
    \<and> (NL \<notin> set l \<and> (\<forall>x \<in> set ls. NL \<notin> set x) \<and> \<not> comment_line l \<and> \<not> blank_line l \<and>
        fields_on_lines (line_read l) ls [] = Some (res, []) \<longrightarrow>
          without_comments (join_lines (l # ls) @ b) = join_lines (l # ls) @ without_comments b)"
proof (intro conjI allI impI)
  show rd: "ReadAll \<lparr>FieldsPerRecord = n, rd = (b, fin)\<rparr> =
          ReadAll \<lparr>FieldsPerRecord = n, rd = (without_comments b, fin)\<rparr>" for n
    by (rule ReadAll_without_comments)
  show "run Parse String Execute e1 fl = run Parse String Execute e2 fl"
    if h: "flags_set fl \<and>
          openResult e1 (protoCsvPath fl) = Inr (b, fin) \<and>
          openResult e2 (protoCsvPath fl) = Inr (without_comments b, fin) \<and>
          writeResult e1 (knownImportsPath fl) = writeResult e2 (knownImportsPath fl)"
    for e1 e2 :: env
  proof -
    from h have fs: "flags_set fl"
      and o1: "openResult e1 (protoCsvPath fl) = Inr (b, fin)"
      and o2: "openResult e2 (protoCsvPath fl) = Inr (without_comments b, fin)"
      and w: "writeResult e1 (knownImportsPath fl) = writeResult e2 (knownImportsPath fl)"
      by simp_all
    from run_same_records [OF fs o1 o2 rd [of 4] w] show ?thesis .
  qed
  show "without_comments (l @ NL # b) = without_comments b" if "NL \<notin> set l \<and> comment_line l"
    using that by (simp add: without_comments_comment)
  show "without_comments l = []" if "NL \<notin> set l \<and> comment_line l"
    using that by (simp add: without_comments_last_comment)
  show "without_comments (join_lines (l # ls) @ b) = join_lines (l # ls) @ without_comments b"
    if h: "NL \<notin> set l \<and> (\<forall>x \<in> set ls. NL \<notin> set x) \<and> \<not> comment_line l \<and> \<not> blank_line l \<and>
        fields_on_lines (line_read l) ls [] = Some (res, [])"
  proof -
    from h have 1: "NL \<notin> set l" and 2: "\<forall>x \<in> set ls. NL \<notin> set x" and 3: "\<not> comment_line l"
      and 4: "\<not> blank_line l" and 5: "fields_on_lines (line_read l) ls [] = Some (res, [])"
      by simp_all
    from without_comments_record [OF 1 2 3 4 5] show ?thesis .
  qed
qed

theorem comment_lines_are_skipped_witness:
  "ReadAll \<lparr>FieldsPerRecord = 4, rd = (with_comments, EOF)\<rparr>
     = Inr [[''a'', ''@r//p:x'', ''x'' @ [NL] @ ''#y'', ''d''], [''b'', ''@r//p:y'', ''3'', ''4'']]
   \<and> without_comments with_comments
     = ''a,@r//p:x,'' @ [DQ] @ ''x'' @ [NL] @ ''#y'' @ [DQ] @ '',d'' @ [NL]
       @ [DQ] @ ''b'' @ [DQ] @ '',@r//p:y,3,4'' @ [NL]
   \<and> run Parse_full String_full (knownImportsTpl quote) (one_file with_comments) (flags_of 0 1)
     = run Parse_full String_full (knownImportsTpl quote)
         (one_file (without_comments with_comments)) (flags_of 0 1)
   \<and> without_comments (''#,,,,,,'' @ NL # ''a,b'' @ [NL]) = without_comments (''a,b'' @ [NL])
   \<and> without_comments ''#'' = []
   \<and> without_comments (join_lines [''a,'' @ [DQ] @ ''x'', ''#y'' @ [DQ]] @ ''#z'')
     = join_lines [''a,'' @ [DQ] @ ''x'', ''#y'' @ [DQ]] @ without_comments ''#z''"
proof -
  let ?kept = "''a,@r//p:x,'' @ [DQ] @ ''x'' @ [NL] @ ''#y'' @ [DQ] @ '',d'' @ [NL]
       @ [DQ] @ ''b'' @ [DQ] @ '',@r//p:y,3,4'' @ [NL]"
  note inst = comment_lines_are_skipped [of with_comments EOF "flags_of 0 1" Parse_full String_full
      "knownImportsTpl quote"]
  have kept: "without_comments with_comments = ?kept"
    by code_simp
  have plain: "ReadAll \<lparr>FieldsPerRecord = 4, rd = (?kept, EOF)\<rparr>
     = Inr [[''a'', ''@r//p:x'', ''x'' @ [NL] @ ''#y'', ''d''], [''b'', ''@r//p:y'', ''3'', ''4'']]"
    by code_simp
  from inst [THEN conjunct1, rule_format, of 4] kept plain
  have 1: "ReadAll \<lparr>FieldsPerRecord = 4, rd = (with_comments, EOF)\<rparr>
     = Inr [[''a'', ''@r//p:x'', ''x'' @ [NL] @ ''#y'', ''d''], [''b'', ''@r//p:y'', ''3'', ''4'']]"
    by simp
  have fs: "flags_set (flags_of 0 1)"
    by (simp add: flags_set_def flags_of_def)
  have o1: "openResult (one_file with_comments) (protoCsvPath (flags_of 0 1))
      = Inr (with_comments, EOF)"
    by (simp add: one_file_def flags_of_def)
  have o2: "openResult (one_file (without_comments with_comments)) (protoCsvPath (flags_of 0 1))
      = Inr (without_comments with_comments, EOF)"
    by (simp add: one_file_def flags_of_def)
  have w: "writeResult (one_file with_comments) (knownImportsPath (flags_of 0 1))
      = writeResult (one_file (without_comments with_comments)) (knownImportsPath (flags_of 0 1))"
    by (simp add: one_file_def)
  from inst [THEN conjunct2, THEN conjunct1, rule_format,
      of "one_file with_comments" "one_file (without_comments with_comments)"] fs o1 o2 w
  have 2: "run Parse_full String_full (knownImportsTpl quote) (one_file with_comments) (flags_of 0 1)
     = run Parse_full String_full (knownImportsTpl quote)
         (one_file (without_comments with_comments)) (flags_of 0 1)"
    by blast
  have c: "NL \<notin> set ''#,,,,,,'' \<and> comment_line ''#,,,,,,''"
    by (simp add: NL_def comment_line_def HASH_def)
  from comment_lines_are_skipped [where l = "''#,,,,,,''" and b = "''a,b'' @ [NL]",
      THEN conjunct2, THEN conjunct2, THEN conjunct1, rule_format, OF c]
  have 3: "without_comments (''#,,,,,,'' @ NL # ''a,b'' @ [NL]) = without_comments (''a,b'' @ [NL])"
    by simp
  have c': "NL \<notin> set ''#'' \<and> comment_line ''#''"
    by (simp add: NL_def comment_line_def HASH_def)
  from comment_lines_are_skipped [where l = "''#''",
      THEN conjunct2, THEN conjunct2, THEN conjunct1, rule_format, OF c']
  have 4: "without_comments ''#'' = []"
    by simp
  have f: "fields_on_lines (line_read (''a,'' @ [DQ] @ ''x'')) [''#y'' @ [DQ]] []
      = Some (([''a'', ''x'' @ [NL] @ ''#y''], None), [])"
    by code_simp
  have r: "NL \<notin> set (''a,'' @ [DQ] @ ''x'') \<and> (\<forall>x \<in> set [''#y'' @ [DQ]]. NL \<notin> set x) \<and>
      \<not> comment_line (''a,'' @ [DQ] @ ''x'') \<and> \<not> blank_line (''a,'' @ [DQ] @ ''x'') \<and>
      fields_on_lines (line_read (''a,'' @ [DQ] @ ''x'')) [''#y'' @ [DQ]] []
        = Some (([''a'', ''x'' @ [NL] @ ''#y''], None), [])"
    using f by (simp add: NL_def DQ_def comment_line_def blank_line_def HASH_def CR_def)
  from comment_lines_are_skipped [where l = "''a,'' @ [DQ] @ ''x''" and ls = "[''#y'' @ [DQ]]"
      and b = "''#z''", THEN conjunct2, THEN conjunct2, THEN conjunct2, rule_format, OF r]
  have 5: "without_comments (join_lines [''a,'' @ [DQ] @ ''x'', ''#y'' @ [DQ]] @ ''#z'')
     = join_lines [''a,'' @ [DQ] @ ''x'', ''#y'' @ [DQ]] @ without_comments ''#z''" .
  from 1 kept 2 3 4 5 show ?thesis by (intro conjI)
qed

end
